theory Spec2Isabelle
  imports Complex_Main "HOL-Library.Char_ord" "HOL-Library.List_Lexorder"
begin

section \<open>Tokens, sentences and corpora\<close>

text \<open>
  A token is a Python \<open>str\<close>, modelled as a \<open>string\<close>; a sentence is a list of
  tokens and a corpus a list of sentences. Characters are the 8-bit \<open>char\<close> of HOL and
  the character classes below are the ASCII ones, so the development speaks about ASCII
  text. Strings are ordered as Python orders them: lexicographically by character code
  (\<open>Char_ord\<close> and \<open>List_Lexorder\<close>).
\<close>

type_synonym token = string
type_synonym sentence = "token list"
type_synonym corpus = "sentence list"

section \<open>Vocabulary Builder (\<open>book_cleaner.get_vocabulary\<close>)\<close>

text \<open>
  \<^verbatim>\<open>
  vocab = set()
  for sent in cleaned_book:
      for w in sent:
          vocab.add(w)
  vocab.add('GAP')
  return sorted(vocab)
  \<close>
  The two loops thread the set through; \<open>sorted\<close> of a set is the list of its
  elements in increasing order.
\<close>

fun add_words :: "sentence \<Rightarrow> token set \<Rightarrow> token set" where
  "add_words [] vocab = vocab"
| "add_words (w # ws) vocab = add_words ws (insert w vocab)"

fun add_sents :: "corpus \<Rightarrow> token set \<Rightarrow> token set" where
  "add_sents [] vocab = vocab"
| "add_sents (sent # rest) vocab = add_sents rest (add_words sent vocab)"

definition get_vocabulary :: "corpus \<Rightarrow> token list" where
  "get_vocabulary cleaned_book =
     sorted_list_of_set (insert ''GAP'' (add_sents cleaned_book {}))"

text \<open>The tokens of a corpus, as a set.\<close>

definition corpus_tokens :: "corpus \<Rightarrow> token set" where
  "corpus_tokens book = (\<Union>sent \<in> set book. set sent)"

section \<open>One-Hot Encoder (\<open>onehot.OneHot.__init__\<close>)\<close>

text \<open>
  The exceptions the constructor can raise: a dictionary lookup of a missing key
  (\<open>KeyError\<close>, with the key), an array write outside the array (\<open>IndexError\<close>, with
  the offending index) and the allocation of an array with a negative dimension
  (\<open>ValueError\<close>).
\<close>

datatype py_error = KeyError token | IndexError nat | ValueError

type_synonym tensor = "int list list list"

text \<open>
  \<^verbatim>\<open>self.word2idx = {w: i for i, w in enumerate(vocabulary)}\<close>:
  a later occurrence of a word overwrites an earlier one.
\<close>

definition word2idx :: "token list \<Rightarrow> (token \<rightharpoonup> nat)" where
  "word2idx vocabulary = fold (\<lambda>(i, w) m. m(w \<mapsto> i)) (enumerate 0 vocabulary) Map.empty"

definition lookup :: "(token \<rightharpoonup> nat) \<Rightarrow> token \<Rightarrow> py_error + nat" where
  "lookup m w = (case m w of None \<Rightarrow> Inl (KeyError w) | Some k \<Rightarrow> Inr k)"

text \<open>\<^verbatim>\<open>np.zeros((N, L, V), dtype=int)\<close>; \<open>N\<close> and \<open>V\<close> are lengths, \<open>L\<close> is the caller's integer.\<close>

definition np_zeros :: "nat \<Rightarrow> int \<Rightarrow> nat \<Rightarrow> py_error + tensor" where
  "np_zeros n l v =
     (if l < 0 then Inl ValueError
      else Inr (replicate n (replicate (nat l) (replicate v 0))))"

text \<open>\<^verbatim>\<open>one_hot[i,j,k] = 1\<close>: the indices are checked axis by axis.\<close>

definition setitem :: "tensor \<Rightarrow> nat \<Rightarrow> nat \<Rightarrow> nat \<Rightarrow> py_error + tensor" where
  "setitem a i j k =
     (if length a \<le> i then Inl (IndexError i)
      else if length (a ! i) \<le> j then Inl (IndexError j)
      else if length (a ! i ! j) \<le> k then Inl (IndexError k)
      else Inr (a[i := (a ! i)[j := (a ! i ! j)[k := 1]]]))"

text \<open>
  \<^verbatim>\<open>
  for j, word in enumerate(sent):
      k = self.word2idx[word]
      one_hot[i,j,k] = 1
  \<close>
\<close>

fun fill_words :: "(token \<rightharpoonup> nat) \<Rightarrow> nat \<Rightarrow> nat \<Rightarrow> sentence \<Rightarrow> tensor \<Rightarrow> py_error + tensor" where
  "fill_words m i j [] a = Inr a"
| "fill_words m i j (word # rest) a =
     (case lookup m word of
        Inl e \<Rightarrow> Inl e
      | Inr k \<Rightarrow>
         (case setitem a i j k of
            Inl e \<Rightarrow> Inl e
          | Inr a' \<Rightarrow> fill_words m i (Suc j) rest a'))"

text \<open>
  \<^verbatim>\<open>
  for j in range(len(sent), self.L):
      one_hot[i,j,gap_idx] = 1
  \<close>
\<close>

fun fill_gaps :: "nat \<Rightarrow> nat \<Rightarrow> nat list \<Rightarrow> tensor \<Rightarrow> py_error + tensor" where
  "fill_gaps i gap_idx [] a = Inr a"
| "fill_gaps i gap_idx (j # js) a =
     (case setitem a i j gap_idx of
        Inl e \<Rightarrow> Inl e
      | Inr a' \<Rightarrow> fill_gaps i gap_idx js a')"

text \<open>The loop over the sentences; \<open>gap_idx\<close> is looked up once per sentence.\<close>

fun fill_sents :: "(token \<rightharpoonup> nat) \<Rightarrow> nat \<Rightarrow> nat \<Rightarrow> corpus \<Rightarrow> tensor \<Rightarrow> py_error + tensor" where
  "fill_sents m l i [] a = Inr a"
| "fill_sents m l i (sent # rest) a =
     (case fill_words m i 0 sent a of
        Inl e \<Rightarrow> Inl e
      | Inr a1 \<Rightarrow>
         (case lookup m ''GAP'' of
            Inl e \<Rightarrow> Inl e
          | Inr gap_idx \<Rightarrow>
             (case fill_gaps i gap_idx [length sent..<l] a1 of
                Inl e \<Rightarrow> Inl e
              | Inr a2 \<Rightarrow> fill_sents m l (Suc i) rest a2)))"

text \<open>Lines 16 to 27 of the constructor: the 3-axis tensor, or the exception raised.\<close>

definition one_hot :: "corpus \<Rightarrow> token list \<Rightarrow> int \<Rightarrow> py_error + tensor" where
  "one_hot sents vocab l =
     (case np_zeros (length sents) l (length vocab) of
        Inl e \<Rightarrow> Inl e
      | Inr a \<Rightarrow> fill_sents (word2idx vocab) (nat l) 0 sents a)"

text \<open>The object the constructor leaves behind; \<open>reshape(N, L*V)\<close> joins the last two axes.\<close>

record onehot =
  self_book :: string
  self_sentences :: corpus
  self_vocabulary :: "token list"
  self_M :: int
  self_L :: int
  self_word2idx :: "token \<rightharpoonup> nat"
  self_N :: nat
  self_V :: nat
  self_onehot_flat :: "int list list"

definition OneHot_init :: "string \<Rightarrow> corpus \<Rightarrow> token list \<Rightarrow> int \<Rightarrow> int \<Rightarrow> py_error + onehot" where
  "OneHot_init book_title sents vocab min_sentence_length max_sentence_length =
     (case one_hot sents vocab max_sentence_length of
        Inl e \<Rightarrow> Inl e
      | Inr a \<Rightarrow>
          Inr \<lparr> self_book = book_title, self_sentences = sents, self_vocabulary = vocab,
                self_M = min_sentence_length, self_L = max_sentence_length,
                self_word2idx = word2idx vocab, self_N = length sents,
                self_V = length vocab, self_onehot_flat = map concat a \<rparr>)"

text \<open>The token the encoder sees at position \<open>j\<close> of a sentence: the word, or the padding symbol.\<close>

definition token_at :: "sentence \<Rightarrow> nat \<Rightarrow> token" where
  "token_at sent j = (if j < length sent then sent ! j else ''GAP'')"

subsection \<open>Shapes of tensors\<close>

definition same_shape :: "tensor \<Rightarrow> tensor \<Rightarrow> bool" where
  "same_shape a a' \<longleftrightarrow>
     length a' = length a
     \<and> (\<forall>i<length a. length (a' ! i) = length (a ! i)
           \<and> (\<forall>j<length (a ! i). length (a' ! i ! j) = length (a ! i ! j)))"

definition rows_of_length :: "nat \<Rightarrow> tensor \<Rightarrow> bool" where
  "rows_of_length l a \<longleftrightarrow> (\<forall>i<length a. length (a ! i) = l)"

definition shape :: "nat \<Rightarrow> nat \<Rightarrow> nat \<Rightarrow> tensor \<Rightarrow> bool" where
  "shape n l v a \<longleftrightarrow>
     length a = n \<and> (\<forall>i<n. length (a ! i) = l \<and> (\<forall>j<l. length (a ! i ! j) = v))"

text \<open>Every index the dictionary hands out is below \<open>v\<close>.\<close>

definition indices_below :: "nat \<Rightarrow> (token \<rightharpoonup> nat) \<Rightarrow> bool" where
  "indices_below v m \<longleftrightarrow> (\<forall>w k. m w = Some k \<longrightarrow> k < v)"

section \<open>String operations of Python used by the cleaner\<close>

text \<open>
  The character tests are the ASCII ones. \<open>str.lower\<close> maps \<open>A\<close>..\<open>Z\<close> to
  \<open>a\<close>..\<open>z\<close>; \<open>str.isdigit\<close> holds of a non-empty string of digits;
  \<^verbatim>\<open>re.search(r"[A-Za-z0-9]", word)\<close> succeeds when some character is a letter or a
  digit; \<open>str.strip(chars)\<close> removes the leading and the trailing characters that occur in
  \<open>chars\<close>.
\<close>

definition is_upper :: "char \<Rightarrow> bool" where
  "is_upper c \<longleftrightarrow> CHR ''A'' \<le> c \<and> c \<le> CHR ''Z''"

definition is_lower :: "char \<Rightarrow> bool" where
  "is_lower c \<longleftrightarrow> CHR ''a'' \<le> c \<and> c \<le> CHR ''z''"

definition is_digit :: "char \<Rightarrow> bool" where
  "is_digit c \<longleftrightarrow> CHR ''0'' \<le> c \<and> c \<le> CHR ''9''"

definition is_alnum :: "char \<Rightarrow> bool" where
  "is_alnum c \<longleftrightarrow> is_upper c \<or> is_lower c \<or> is_digit c"

definition lower_char :: "char \<Rightarrow> char" where
  "lower_char c = (if is_upper c then char_of (of_char c + (32::nat)) else c)"

definition lower :: "string \<Rightarrow> string" where
  "lower w = map lower_char w"

definition isdigit :: "string \<Rightarrow> bool" where
  "isdigit w \<longleftrightarrow> w \<noteq> [] \<and> list_all is_digit w"

definition has_alnum :: "string \<Rightarrow> bool" where
  "has_alnum w \<longleftrightarrow> list_ex is_alnum w"

definition strip :: "string \<Rightarrow> string \<Rightarrow> string" where
  "strip chars w =
     rev (dropWhile (\<lambda>c. c \<in> set chars) (rev (dropWhile (\<lambda>c. c \<in> set chars) w)))"

text \<open>\<open>list.index\<close>, called only on a list that holds the element.\<close>

fun index_of :: "'a list \<Rightarrow> 'a \<Rightarrow> nat" where
  "index_of [] x = 0"
| "index_of (y # ys) x = (if y = x then 0 else Suc (index_of ys x))"

section \<open>Roman-Numeral Classifier (\<open>book_cleaner.is_roman\<close>)\<close>

text \<open>
  The pattern of \<open>is_roman\<close> is built from literals, concatenation, alternation, the
  optional group \<open>(...)?\<close>, the bounded repetition \<open>{0,3}\<close> and the anchors \<open>^\<close> and
  \<open>$\<close>. \<open>re.VERBOSE\<close> removes the white space of the pattern.
\<close>

datatype regex = Lit char | Seq regex regex | Alt regex regex | Opt regex | Bol | Eol

text \<open>\<open>r{0,3}\<close>: greedily up to three copies of \<open>r\<close>.\<close>

definition upto3 :: "regex \<Rightarrow> regex" where
  "upto3 r = Opt (Seq r (Opt (Seq r (Opt r))))"

text \<open>
  A backtracking matcher: \<open>rmatch s r rest\<close> lists, in the order the engine tries them,
  the remainders of the subject \<open>s\<close> that can be left when \<open>r\<close> is matched at the front
  of \<open>rest\<close>. Under \<open>re.IGNORECASE\<close> a literal matches a character of the same lower-case
  form. \<open>^\<close> matches where nothing has been consumed; \<open>$\<close> (without \<open>re.MULTILINE\<close>)
  matches at the end of the subject and also just before a newline that ends the subject.
\<close>

fun rmatch :: "string \<Rightarrow> regex \<Rightarrow> string \<Rightarrow> string list" where
  "rmatch s (Lit c) rest =
     (case rest of [] \<Rightarrow> [] | d # rest' \<Rightarrow> if lower_char d = lower_char c then [rest'] else [])"
| "rmatch s (Seq a b) rest = concat (map (rmatch s b) (rmatch s a rest))"
| "rmatch s (Alt a b) rest = rmatch s a rest @ rmatch s b rest"
| "rmatch s (Opt a) rest = rmatch s a rest @ [rest]"
| "rmatch s Bol rest = (if length rest = length s then [rest] else [])"
| "rmatch s Eol rest = (if rest = [] \<or> rest = [CHR 0x0A] then [rest] else [])"

text \<open>\<open>re.match(pattern, word)\<close> as a truth value: some way of matching at the start exists.\<close>

definition re_match :: "regex \<Rightarrow> string \<Rightarrow> bool" where
  "re_match pattern word \<longleftrightarrow> rmatch word pattern word \<noteq> []"

text \<open>A literal word, as a regular expression.\<close>

definition lit2 :: "char \<Rightarrow> char \<Rightarrow> regex" where
  "lit2 c d = Seq (Lit c) (Lit d)"

text \<open>\<^verbatim>\<open>M{0,3} (CM|CD|D?C{0,3})? (XC|XL|L?X{0,3})? (IX|IV|V?I{0,3})?\<close>\<close>

definition roman_grammar :: regex where
  "roman_grammar =
     Seq (upto3 (Lit CHR ''M''))
    (Seq (Opt (Alt (lit2 CHR ''C'' CHR ''M'')
              (Alt (lit2 CHR ''C'' CHR ''D'')
                   (Seq (Opt (Lit CHR ''D'')) (upto3 (Lit CHR ''C''))))))
    (Seq (Opt (Alt (lit2 CHR ''X'' CHR ''C'')
              (Alt (lit2 CHR ''X'' CHR ''L'')
                   (Seq (Opt (Lit CHR ''L'')) (upto3 (Lit CHR ''X''))))))
         (Opt (Alt (lit2 CHR ''I'' CHR ''X'')
              (Alt (lit2 CHR ''I'' CHR ''V'')
                   (Seq (Opt (Lit CHR ''V'')) (upto3 (Lit CHR ''I''))))))))"

definition roman_pattern :: regex where
  "roman_pattern = Seq Bol (Seq roman_grammar Eol)"

definition is_roman :: "string \<Rightarrow> bool" where
  "is_roman word = re_match roman_pattern word"

text \<open>
  The words of a regular expression without its anchors, case-insensitively: what it means
  for a whole token to match the grammar.
\<close>

fun lang :: "regex \<Rightarrow> string set" where
  "lang (Lit c) = {[d] | d. lower_char d = lower_char c}"
| "lang (Seq a b) = {u @ v | u v. u \<in> lang a \<and> v \<in> lang b}"
| "lang (Alt a b) = lang a \<union> lang b"
| "lang (Opt a) = insert [] (lang a)"
| "lang Bol = {[]}"
| "lang Eol = {[]}"

section \<open>Sentence Filter and Cleaner (\<open>book_cleaner.clean_sents\<close>)\<close>

text \<open>
  \<^verbatim>\<open>PUNCT = set("`!@#$%^&*()_-+=[]|;:<>,.?/{\}")\<close>: in the Python literal \<^verbatim>\<open>\}\<close> is
  not an escape, so the backslash (code \<open>0x5C\<close>) belongs to the set, as does the backtick
  (code \<open>0x60\<close>).
\<close>

definition PUNCT :: "char list" where
  "PUNCT = CHR 0x60 # ''!@#$%^&*()_-+=[]|;:<>,.?/{'' @ [CHR 0x5C, CHR ''}'']"

text \<open>\<open>word in PUNCT\<close>: the set holds strings of one character.\<close>

definition in_PUNCT :: "string \<Rightarrow> bool" where
  "in_PUNCT word = (case word of [c] \<Rightarrow> c \<in> set PUNCT | _ \<Rightarrow> False)"

text \<open>
  The part-of-speech tagger is external. It returns the tokens it was given, each paired
  with a tag, so it is a parameter that gives the tag of the token at position \<open>i\<close> of a
  sentence.
\<close>

type_synonym tagger = "sentence \<Rightarrow> nat \<Rightarrow> string"

definition pos_tag :: "tagger \<Rightarrow> sentence \<Rightarrow> (token \<times> string) list" where
  "pos_tag tagger sent = map (\<lambda>i. (sent ! i, tagger sent i)) [0..<length sent]"

text \<open>
  Lines 109 to 117: whether the sentence is skipped as a chapter heading.
  \<^verbatim>\<open>
  if any(tok == "CHAPTER" for tok in sent): continue
  lowered = [tok.lower() for tok in sent]
  if "chapter" in lowered:
      i = lowered.index("chapter")
      if i + 1 < len(sent):
          nxt = sent[i + 1]
          if nxt.isdigit() or is_roman(nxt): continue
  \<close>
\<close>

definition chapter_heading :: "sentence \<Rightarrow> bool" where
  "chapter_heading sent =
     (if list_ex (\<lambda>tok. tok = ''CHAPTER'') sent then True
      else
        let lowered = map lower sent in
        if ''chapter'' \<in> set lowered then
          let i = index_of lowered ''chapter'' in
          if i + 1 < length sent then
            let nxt = sent ! (i + 1) in isdigit nxt \<or> is_roman nxt
          else False
        else False)"

text \<open>
  Lines 121 to 137, for one tagged token: \<open>None\<close> when the token is dropped
  (\<open>continue\<close>), otherwise the token appended to \<open>clean\<close>.
\<close>

definition clean_word :: "token \<times> string \<Rightarrow> token option" where
  "clean_word p =
     (case p of (word, PoS) \<Rightarrow>
        if \<not> has_alnum word then None
        else if isdigit word then None
        else if 1 < length word \<and> is_roman word then None
        else if in_PUNCT word then None
        else if PoS = ''NNP'' then Some word
        else
          let w = lower (strip (''_'' @ PUNCT) word) in
          if w = [] then None
          else if length w = 1 \<and> w \<notin> {''a'', ''i''} then None
          else Some w)"

text \<open>The loop over the tagged tokens of a sentence, \<open>clean\<close> being the list built so far.\<close>

fun clean_tokens :: "(token \<times> string) list \<Rightarrow> sentence \<Rightarrow> sentence" where
  "clean_tokens [] clean = clean"
| "clean_tokens (p # ps) clean =
     (case clean_word p of
        None \<Rightarrow> clean_tokens ps clean
      | Some w \<Rightarrow> clean_tokens ps (clean @ [w]))"

text \<open>The loop over the sentences that passed the length pre-filter.\<close>

fun clean_loop :: "tagger \<Rightarrow> int \<Rightarrow> int \<Rightarrow> corpus \<Rightarrow> corpus \<Rightarrow> corpus" where
  "clean_loop tagger min_sent_len max_sent_len [] cleaned = cleaned"
| "clean_loop tagger min_sent_len max_sent_len (sent # rest) cleaned =
     (if chapter_heading sent then clean_loop tagger min_sent_len max_sent_len rest cleaned
      else
        let clean = clean_tokens (pos_tag tagger sent) [] in
        if min_sent_len \<le> int (length clean) \<and> int (length clean) \<le> max_sent_len
        then clean_loop tagger min_sent_len max_sent_len rest (cleaned @ [clean])
        else clean_loop tagger min_sent_len max_sent_len rest cleaned)"

text \<open>
  \<^verbatim>\<open>filtered = [s for s in sentences if min_sent_len <= len(s) <= max_sent_len+1]\<close>
\<close>

definition filtered :: "corpus \<Rightarrow> int \<Rightarrow> int \<Rightarrow> corpus" where
  "filtered sentences min_sent_len max_sent_len =
     filter (\<lambda>s. min_sent_len \<le> int (length s) \<and> int (length s) \<le> max_sent_len + 1) sentences"

definition clean_sents :: "tagger \<Rightarrow> corpus \<Rightarrow> int \<Rightarrow> int \<Rightarrow> corpus" where
  "clean_sents tagger sentences min_sent_len max_sent_len =
     clean_loop tagger min_sent_len max_sent_len (filtered sentences min_sent_len max_sent_len) []"

text \<open>A tagger that marks no token as a proper noun, for the examples.\<close>

definition tag_nn :: tagger where
  "tag_nn sent i = ''NN''"


section \<open>Auxiliary notions for the proofs\<close>

text \<open>A regular expression without anchors.\<close>

fun anchor_free :: "regex \<Rightarrow> bool" where
  "anchor_free (Lit c) = True"
| "anchor_free (Seq a b) = (anchor_free a \<and> anchor_free b)"
| "anchor_free (Alt a b) = (anchor_free a \<and> anchor_free b)"
| "anchor_free (Opt a) = anchor_free a"
| "anchor_free Bol = False"
| "anchor_free Eol = False"

text \<open>The literal characters of a regular expression.\<close>

fun literals :: "regex \<Rightarrow> char set" where
  "literals (Lit c) = {c}"
| "literals (Seq a b) = literals a \<union> literals b"
| "literals (Alt a b) = literals a \<union> literals b"
| "literals (Opt a) = literals a"
| "literals Bol = {}"
| "literals Eol = {}"

text \<open>
  The chapter rule in the words of the specification: some token is \<open>CHAPTER\<close>, or some
  token equal to \<open>chapter\<close> up to case is directly followed by a token that is all digits or
  a Roman numeral of more than one character.
\<close>

definition chapter_rule_as_specified :: "sentence \<Rightarrow> bool" where
  "chapter_rule_as_specified sent \<longleftrightarrow>
     ''CHAPTER'' \<in> set sent
     \<or> list_ex (\<lambda>(tok, nxt). lower tok = ''chapter''
                    \<and> (isdigit nxt \<or> (1 < length nxt \<and> is_roman nxt)))
         (zip sent (tl sent))"

text \<open>
  A token in the form the normaliser gives to a token that is not a proper noun: stripped,
  in lower case, and not a single character other than \<open>a\<close> and \<open>i\<close>.
\<close>

definition normal_form :: "token \<Rightarrow> bool" where
  "normal_form t \<longleftrightarrow>
     lower (strip (''_'' @ PUNCT) t) = t \<and> (length t = 1 \<longrightarrow> t \<in> {''a'', ''i''})"

section \<open>Positional Analyzer: the entropy formula in exact arithmetic\<close>

text \<open>
  \<open>OneHot.position_dimensionality\<close> evaluates
  \<^verbatim>\<open>entropy = -np.sum(p * np.log2(p+1e-5))\<close> and \<^verbatim>\<open>dimensionality = 2**entropy\<close>
  in binary floating point, which this development does not model. The two definitions
  below read the same formulas over the real numbers; what is proved of them describes
  the program only up to rounding.
\<close>

definition entropy_exact :: "real list \<Rightarrow> real" where
  "entropy_exact p = - (\<Sum>x\<leftarrow>p. x * log 2 (x + 1 / 100000))"

definition dimensionality_exact :: "real list \<Rightarrow> real" where
  "dimensionality_exact p = 2 powr entropy_exact p"

section \<open>Properties of the Vocabulary Builder\<close>

lemma add_words_eq: "add_words ws vocab = set ws \<union> vocab"
  by (induction ws arbitrary: vocab) auto

lemma add_sents_eq: "add_sents book vocab = corpus_tokens book \<union> vocab"
  by (induction book arbitrary: vocab) (auto simp: add_words_eq corpus_tokens_def)

lemma finite_corpus_tokens: "finite (corpus_tokens book)"
  by (simp add: corpus_tokens_def)

lemma set_get_vocabulary: "set (get_vocabulary book) = insert ''GAP'' (corpus_tokens book)"
proof -
  have "finite (insert ''GAP'' (corpus_tokens book))"
    by (simp add: finite_corpus_tokens)
  then show ?thesis
    unfolding get_vocabulary_def add_sents_eq by (simp only: set_sorted_list_of_set Un_empty_right Un_insert_right)
qed

text \<open>
  C4, as the code has it. The vocabulary is the set of the corpus's tokens together with
  \<open>GAP\<close>, sorted in the lexicographic order and without duplicates, and it always
  contains \<open>GAP\<close>. Its size is one more than the number of
  distinct tokens other than \<open>GAP\<close>: a corpus that already holds the token \<open>GAP\<close>
  does not get a second entry for it.
\<close>

theorem get_vocabulary_sorted_distinct:
  "set (get_vocabulary book) = insert ''GAP'' (corpus_tokens book)
   \<and> sorted (get_vocabulary book) \<and> distinct (get_vocabulary book)
   \<and> ''GAP'' \<in> set (get_vocabulary book)
   \<and> length (get_vocabulary book) = card (corpus_tokens book - {''GAP''}) + 1"
proof -
  let ?A = "insert ''GAP'' (corpus_tokens book)"
  have fin: "finite ?A" by (simp add: finite_corpus_tokens)
  have v: "get_vocabulary book = sorted_list_of_set ?A"
    by (simp add: get_vocabulary_def add_sents_eq)
  have "length (get_vocabulary book) = card ?A"
    unfolding v by (simp only: length_sorted_list_of_set)
  also have "\<dots> = Suc (card (corpus_tokens book - {''GAP''}))"
    by (rule card.insert_remove) (rule finite_corpus_tokens)
  finally have len: "length (get_vocabulary book) = card (corpus_tokens book - {''GAP''}) + 1"
    by simp
  have "sorted (get_vocabulary book)" "distinct (get_vocabulary book)"
    unfolding v by simp_all
  with len show ?thesis by (simp add: set_get_vocabulary)
qed

text \<open>The vocabulary of the specification's scenario; capitals come before small letters.\<close>

lemma get_vocabulary_example:
  "get_vocabulary [[''the'', ''cat'', ''sat''], [''dog'']] = [''GAP'', ''cat'', ''dog'', ''sat'', ''the'']"
  by code_simp

text \<open>
  C4 as stated fails on a corpus that contains the token \<open>GAP\<close> (a proper noun is kept
  verbatim by the cleaner, so the cleaned corpus can hold it): the corpus below has two
  distinct tokens and its vocabulary has two entries, not three.
\<close>

theorem get_vocabulary_size_counterexample:
  "length (get_vocabulary [[''GAP'', ''the'']]) \<noteq> card (corpus_tokens [[''GAP'', ''the'']]) + 1"
  by (simp add: get_vocabulary_def corpus_tokens_def)

section \<open>Properties of the One-Hot Encoder\<close>

lemma word2idx_fold:
  "fold (\<lambda>(i, w) m. m(w \<mapsto> i)) (enumerate n xs) m0 w = Some k \<Longrightarrow>
     (m0 w = Some k \<and> w \<notin> set xs) \<or> (n \<le> k \<and> k < n + length xs \<and> xs ! (k - n) = w)"
proof (induction xs arbitrary: n m0)
  case Nil
  then show ?case by simp
next
  case (Cons x xs)
  from Cons.prems have "fold (\<lambda>(i, w) m. m(w \<mapsto> i)) (enumerate (Suc n) xs) (m0(x \<mapsto> n)) w = Some k"
    by (simp del: fun_upd_apply)
  from Cons.IH[OF this] show ?case
    by (auto split: if_splits simp: nth_Cons')
qed

lemma dom_word2idx_fold:
  "dom (fold (\<lambda>(i, w) m. m(w \<mapsto> i)) (enumerate n xs) m0) = dom m0 \<union> set xs"
  by (induction xs arbitrary: n m0) auto

lemma dom_word2idx: "dom (word2idx vocab) = set vocab"
  by (simp add: word2idx_def dom_word2idx_fold)

lemma word2idx_Some: "word2idx vocab w = Some k \<Longrightarrow> k < length vocab \<and> vocab ! k = w"
  using word2idx_fold[of 0 vocab Map.empty w k] by (auto simp: word2idx_def)

lemma lookup_Inr: "lookup m w = Inr k \<longleftrightarrow> m w = Some k"
  by (simp add: lookup_def split: option.splits)

lemma lookup_Inl: "lookup m w = Inl e \<longleftrightarrow> m w = None \<and> e = KeyError w"
  by (auto simp add: lookup_def split: option.splits)

lemma setitem_Inr:
  "setitem a i j k = Inr a' \<longleftrightarrow>
     i < length a \<and> j < length (a ! i) \<and> k < length (a ! i ! j)
     \<and> a' = a[i := (a ! i)[j := (a ! i ! j)[k := 1]]]"
  by (auto simp: setitem_def)

lemma same_shape_refl: "same_shape a a"
  by (simp add: same_shape_def)

lemma same_shape_trans: "same_shape a b \<Longrightarrow> same_shape b c \<Longrightarrow> same_shape a c"
  by (simp add: same_shape_def)

lemma setitem_shape: "setitem a i j k = Inr a' \<Longrightarrow> same_shape a a'"
  by (auto simp: setitem_Inr same_shape_def nth_list_update)

lemma setitem_entry:
  assumes "setitem a i j k = Inr a'" "i' < length a" "j' < length (a ! i')" "k' < length (a ! i' ! j')"
  shows "a' ! i' ! j' ! k' = (if i' = i \<and> j' = j \<and> k' = k then 1 else a ! i' ! j' ! k')"
  using assms by (auto simp: setitem_Inr nth_list_update)

lemma fill_words_Cons_Inr:
  "fill_words m i j (w # rest) a = Inr a' \<longleftrightarrow>
     (\<exists>k a1. m w = Some k \<and> setitem a i j k = Inr a1 \<and> fill_words m i (Suc j) rest a1 = Inr a')"
  by (auto simp: lookup_def split: option.splits sum.splits)

lemma fill_words_shape: "fill_words m i j ws a = Inr a' \<Longrightarrow> same_shape a a'"
proof (induction ws arbitrary: j a)
  case Nil
  then show ?case by (simp add: same_shape_refl)
next
  case (Cons w rest)
  then obtain k a1 where "setitem a i j k = Inr a1" "fill_words m i (Suc j) rest a1 = Inr a'"
    unfolding fill_words_Cons_Inr by blast
  then show ?case
    using Cons.IH setitem_shape same_shape_trans by blast
qed

lemma fill_words_needs:
  "fill_words m i j ws a = Inr a' \<Longrightarrow> ws \<noteq> [] \<Longrightarrow>
     i < length a \<and> j + length ws \<le> length (a ! i) \<and> set ws \<subseteq> dom m"
proof (induction ws arbitrary: j a)
  case Nil
  then show ?case by simp
next
  case (Cons w rest)
  then obtain k a1 where s: "m w = Some k" "setitem a i j k = Inr a1"
      and r: "fill_words m i (Suc j) rest a1 = Inr a'"
    unfolding fill_words_Cons_Inr by blast
  from s(2) have ij: "i < length a" "j < length (a ! i)" by (simp_all add: setitem_Inr)
  from setitem_shape[OF s(2)] ij have len: "length (a1 ! i) = length (a ! i)" "length a1 = length a"
    by (simp_all add: same_shape_def)
  show ?case
  proof (cases "rest = []")
    case True
    with ij s show ?thesis by auto
  next
    case False
    from Cons.IH[OF r False] len ij s show ?thesis by auto
  qed
qed

lemma fill_words_entry:
  assumes "fill_words m i j ws a = Inr a'"
    and "i' < length a" "j' < length (a ! i')" "k' < length (a ! i' ! j')"
  shows "a' ! i' ! j' ! k' =
     (if i' = i \<and> j \<le> j' \<and> j' < j + length ws \<and> m (ws ! (j' - j)) = Some k' then 1
      else a ! i' ! j' ! k')"
  using assms
proof (induction ws arbitrary: j a)
  case Nil
  then show ?case by simp
next
  case (Cons w rest)
  then obtain k a1 where s: "m w = Some k" "setitem a i j k = Inr a1"
      and r: "fill_words m i (Suc j) rest a1 = Inr a'"
    unfolding fill_words_Cons_Inr by blast
  from setitem_shape[OF s(2)] Cons.prems(2-4)
  have len: "i' < length a1" "j' < length (a1 ! i')" "k' < length (a1 ! i' ! j')"
    by (simp_all add: same_shape_def)
  have e1: "a1 ! i' ! j' ! k' = (if i' = i \<and> j' = j \<and> k' = k then 1 else a ! i' ! j' ! k')"
    by (rule setitem_entry[OF s(2) Cons.prems(2-4)])
  have e2: "a' ! i' ! j' ! k' =
     (if i' = i \<and> Suc j \<le> j' \<and> j' < Suc j + length rest \<and> m (rest ! (j' - Suc j)) = Some k' then 1
      else a1 ! i' ! j' ! k')"
    by (rule Cons.IH[OF r len])
  show ?case
  proof (cases "j' = j")
    case True
    with e1 e2 s show ?thesis by auto
  next
    case False
    then have "j \<le> j' \<Longrightarrow> (w # rest) ! (j' - j) = rest ! (j' - Suc j)"
      by (simp add: nth_Cons')
    with False e1 e2 show ?thesis by auto
  qed
qed

lemma fill_gaps_Cons_Inr:
  "fill_gaps i g (j # js) a = Inr a' \<longleftrightarrow>
     (\<exists>a1. setitem a i j g = Inr a1 \<and> fill_gaps i g js a1 = Inr a')"
  by (auto split: sum.splits)

lemma fill_gaps_shape: "fill_gaps i g js a = Inr a' \<Longrightarrow> same_shape a a'"
proof (induction js arbitrary: a)
  case Nil
  then show ?case by (simp add: same_shape_refl)
next
  case (Cons j js)
  then obtain a1 where "setitem a i j g = Inr a1" "fill_gaps i g js a1 = Inr a'"
    unfolding fill_gaps_Cons_Inr by blast
  then show ?case
    using Cons.IH setitem_shape same_shape_trans by blast
qed

lemma fill_gaps_entry:
  assumes "fill_gaps i g js a = Inr a'"
    and "i' < length a" "j' < length (a ! i')" "k' < length (a ! i' ! j')"
  shows "a' ! i' ! j' ! k' =
     (if i' = i \<and> j' \<in> set js \<and> k' = g then 1 else a ! i' ! j' ! k')"
  using assms
proof (induction js arbitrary: a)
  case Nil
  then show ?case by simp
next
  case (Cons j js)
  then obtain a1 where s: "setitem a i j g = Inr a1" and r: "fill_gaps i g js a1 = Inr a'"
    unfolding fill_gaps_Cons_Inr by blast
  from setitem_shape[OF s] Cons.prems(2-4)
  have len: "i' < length a1" "j' < length (a1 ! i')" "k' < length (a1 ! i' ! j')"
    by (simp_all add: same_shape_def)
  have e1: "a1 ! i' ! j' ! k' = (if i' = i \<and> j' = j \<and> k' = g then 1 else a ! i' ! j' ! k')"
    by (rule setitem_entry[OF s Cons.prems(2-4)])
  have e2: "a' ! i' ! j' ! k' =
     (if i' = i \<and> j' \<in> set js \<and> k' = g then 1 else a1 ! i' ! j' ! k')"
    by (rule Cons.IH[OF r len])
  from e1 e2 show ?case by auto
qed

lemma rows_of_length_shape: "same_shape a a' \<Longrightarrow> rows_of_length l a \<Longrightarrow> rows_of_length l a'"
  by (simp add: same_shape_def rows_of_length_def)

lemma fill_sents_Cons_Inr:
  "fill_sents m l i (sent # rest) a = Inr a' \<longleftrightarrow>
     (\<exists>a1 g a2. fill_words m i 0 sent a = Inr a1 \<and> m ''GAP'' = Some g
        \<and> fill_gaps i g [length sent..<l] a1 = Inr a2
        \<and> fill_sents m l (Suc i) rest a2 = Inr a')"
  by (auto simp: lookup_def split: option.splits sum.splits)

lemma fill_sents_shape: "fill_sents m l i sents a = Inr a' \<Longrightarrow> same_shape a a'"
proof (induction sents arbitrary: i a)
  case Nil
  then show ?case by (simp add: same_shape_refl)
next
  case (Cons sent rest)
  then obtain a1 g a2 where w: "fill_words m i 0 sent a = Inr a1"
      and p: "fill_gaps i g [length sent..<l] a1 = Inr a2"
      and r: "fill_sents m l (Suc i) rest a2 = Inr a'"
    unfolding fill_sents_Cons_Inr by blast
  have "same_shape a a2"
    by (rule same_shape_trans[OF fill_words_shape[OF w] fill_gaps_shape[OF p]])
  then show ?case
    by (rule same_shape_trans[OF _ Cons.IH[OF r]])
qed

lemma fill_sents_needs:
  "fill_sents m l i sents a = Inr a' \<Longrightarrow> rows_of_length l a \<Longrightarrow> s \<in> set sents \<Longrightarrow>
     length s \<le> l \<and> set s \<subseteq> dom m \<and> ''GAP'' \<in> dom m"
proof (induction sents arbitrary: i a)
  case Nil
  then show ?case by simp
next
  case (Cons sent rest)
  then obtain a1 g a2 where w: "fill_words m i 0 sent a = Inr a1" and g: "m ''GAP'' = Some g"
      and p: "fill_gaps i g [length sent..<l] a1 = Inr a2"
      and r: "fill_sents m l (Suc i) rest a2 = Inr a'"
    unfolding fill_sents_Cons_Inr by blast
  have rows: "rows_of_length l a2"
    by (rule rows_of_length_shape[OF fill_gaps_shape[OF p]
          rows_of_length_shape[OF fill_words_shape[OF w] Cons.prems(2)]])
  show ?case
  proof (cases "s = sent")
    case True
    show ?thesis
    proof (cases "sent = []")
      case True
      with \<open>s = sent\<close> g show ?thesis by auto
    next
      case False
      from fill_words_needs[OF w False] Cons.prems(2) True g show ?thesis
        by (auto simp: rows_of_length_def)
    qed
  next
    case False
    with Cons.prems(3) have "s \<in> set rest" by simp
    from Cons.IH[OF r rows this] show ?thesis .
  qed
qed

lemma fill_sents_entry:
  assumes "fill_sents m l i sents a = Inr a'" and "rows_of_length l a"
    and "i' < length a" "j' < l" "k' < length (a ! i' ! j')"
  shows "a' ! i' ! j' ! k' =
     (if i \<le> i' \<and> i' < i + length sents \<and> m (token_at (sents ! (i' - i)) j') = Some k' then 1
      else a ! i' ! j' ! k')"
  using assms
proof (induction sents arbitrary: i a)
  case Nil
  then show ?case by simp
next
  case (Cons sent rest)
  then obtain a1 g a2 where w: "fill_words m i 0 sent a = Inr a1" and g: "m ''GAP'' = Some g"
      and p: "fill_gaps i g [length sent..<l] a1 = Inr a2"
      and r: "fill_sents m l (Suc i) rest a2 = Inr a'"
    unfolding fill_sents_Cons_Inr by blast
  have j': "j' < length (a ! i')"
    using Cons.prems(2,3,4) by (simp add: rows_of_length_def)
  have s1: "same_shape a a1" by (rule fill_words_shape[OF w])
  have s2: "same_shape a1 a2" by (rule fill_gaps_shape[OF p])
  have len1: "i' < length a1" "j' < length (a1 ! i')" "k' < length (a1 ! i' ! j')"
    using s1 Cons.prems(3,5) j' by (simp_all add: same_shape_def)
  have len2: "i' < length a2" "k' < length (a2 ! i' ! j')"
    using s2 len1 by (simp_all add: same_shape_def)
  have rows: "rows_of_length l a2"
    by (rule rows_of_length_shape[OF s2 rows_of_length_shape[OF s1 Cons.prems(2)]])
  have e1: "a1 ! i' ! j' ! k' =
     (if i' = i \<and> j' < length sent \<and> m (sent ! j') = Some k' then 1 else a ! i' ! j' ! k')"
    using fill_words_entry[OF w Cons.prems(3) j' Cons.prems(5)] by simp
  have e2: "a2 ! i' ! j' ! k' =
     (if i' = i \<and> length sent \<le> j' \<and> k' = g then 1 else a1 ! i' ! j' ! k')"
    using fill_gaps_entry[OF p len1] Cons.prems(4) by simp
  have e3: "a' ! i' ! j' ! k' =
     (if Suc i \<le> i' \<and> i' < Suc i + length rest \<and> m (token_at (rest ! (i' - Suc i)) j') = Some k'
      then 1 else a2 ! i' ! j' ! k')"
    by (rule Cons.IH[OF r rows len2(1) Cons.prems(4) len2(2)])
  show ?case
  proof (cases "i' = i")
    case True
    with e1 e2 e3 g show ?thesis by (auto simp: token_at_def)
  next
    case False
    then have "i \<le> i' \<Longrightarrow> (sent # rest) ! (i' - i) = rest ! (i' - Suc i)"
      by (simp add: nth_Cons')
    with False e1 e2 e3 show ?thesis by auto
  qed
qed

lemma shape_same: "same_shape a a' \<Longrightarrow> shape n l v a \<Longrightarrow> shape n l v a'"
  by (simp add: same_shape_def shape_def)

lemma shape_rows: "shape n l v a \<Longrightarrow> rows_of_length l a"
  by (simp add: shape_def rows_of_length_def)

lemma shape_zeros: "shape n l v (replicate n (replicate l (replicate v 0)))"
  by (simp add: shape_def)

lemma setitem_ok:
  "shape n l v a \<Longrightarrow> i < n \<Longrightarrow> j < l \<Longrightarrow> k < v \<Longrightarrow> \<exists>a'. setitem a i j k = Inr a'"
  by (simp add: setitem_def shape_def)

lemma setitem_IndexError:
  "shape n l v a \<Longrightarrow> i < n \<Longrightarrow> l \<le> j \<Longrightarrow> setitem a i j k = Inl (IndexError j)"
  by (simp add: setitem_def shape_def)

lemma indices_below_word2idx: "indices_below (length vocab) (word2idx vocab)"
  by (simp add: indices_below_def word2idx_Some)

lemma fill_words_ok:
  "shape n l v a \<Longrightarrow> indices_below v m \<Longrightarrow> i < n \<Longrightarrow> j + length ws \<le> l \<Longrightarrow> set ws \<subseteq> dom m
     \<Longrightarrow> \<exists>a'. fill_words m i j ws a = Inr a'"
proof (induction ws arbitrary: j a)
  case Nil
  then show ?case by simp
next
  case (Cons w rest)
  from Cons.prems(5) obtain k where k: "m w = Some k" by auto
  with Cons.prems(2) have "k < v" by (simp add: indices_below_def)
  with Cons.prems obtain a1 where a1: "setitem a i j k = Inr a1"
    using setitem_ok[of n l v a i j k] by auto
  have "shape n l v a1" by (rule shape_same[OF setitem_shape[OF a1] Cons.prems(1)])
  from Cons.IH[OF this Cons.prems(2,3), of "Suc j"] Cons.prems(4,5)
  obtain a' where "fill_words m i (Suc j) rest a1 = Inr a'" by auto
  with k a1 show ?case by (simp add: lookup_def)
qed

lemma fill_gaps_ok:
  "shape n l v a \<Longrightarrow> i < n \<Longrightarrow> g < v \<Longrightarrow> \<forall>j\<in>set js. j < l
     \<Longrightarrow> \<exists>a'. fill_gaps i g js a = Inr a'"
proof (induction js arbitrary: a)
  case Nil
  then show ?case by simp
next
  case (Cons j js)
  then obtain a1 where a1: "setitem a i j g = Inr a1"
    using setitem_ok[of n l v a i j g] by auto
  have "shape n l v a1" by (rule shape_same[OF setitem_shape[OF a1] Cons.prems(1)])
  from Cons.IH[OF this Cons.prems(2,3)] Cons.prems(4)
  obtain a' where "fill_gaps i g js a1 = Inr a'" by auto
  with a1 show ?case by (auto simp: fill_gaps_Cons_Inr)
qed

text \<open>One sentence that fits: its words and its padding are written.\<close>

lemma fill_sentence_ok:
  assumes "shape n l v a" "indices_below v m" "i < n" "length sent \<le> l" "set sent \<subseteq> dom m"
    and "m ''GAP'' = Some g"
  shows "\<exists>a1 a2. fill_words m i 0 sent a = Inr a1 \<and> fill_gaps i g [length sent..<l] a1 = Inr a2
           \<and> shape n l v a2"
proof -
  from fill_words_ok[OF assms(1,2,3), of 0 sent] assms(4,5)
  obtain a1 where a1: "fill_words m i 0 sent a = Inr a1" by auto
  have s1: "shape n l v a1" by (rule shape_same[OF fill_words_shape[OF a1] assms(1)])
  from assms(2,6) have "g < v" by (simp add: indices_below_def)
  from fill_gaps_ok[OF s1 assms(3) this, of "[length sent..<l]"]
  obtain a2 where a2: "fill_gaps i g [length sent..<l] a1 = Inr a2" by auto
  have "shape n l v a2" by (rule shape_same[OF fill_gaps_shape[OF a2] s1])
  with a1 a2 show ?thesis by blast
qed

lemma fill_sents_ok:
  "shape n l v a \<Longrightarrow> indices_below v m \<Longrightarrow> i + length sents \<le> n \<Longrightarrow> m ''GAP'' = Some g
     \<Longrightarrow> \<forall>s\<in>set sents. length s \<le> l \<and> set s \<subseteq> dom m
     \<Longrightarrow> \<exists>a'. fill_sents m l i sents a = Inr a'"
proof (induction sents arbitrary: i a)
  case Nil
  then show ?case by simp
next
  case (Cons sent rest)
  from Cons.prems(3) have i: "i < n" by simp
  from fill_sentence_ok[OF Cons.prems(1,2) i _ _ Cons.prems(4), of sent] Cons.prems(5)
  obtain a1 a2 where a: "fill_words m i 0 sent a = Inr a1"
      "fill_gaps i g [length sent..<l] a1 = Inr a2" "shape n l v a2"
    by auto
  from Cons.IH[OF a(3) Cons.prems(2) _ Cons.prems(4), of "Suc i"] Cons.prems(3,5)
  obtain a' where "fill_sents m l (Suc i) rest a2 = Inr a'" by auto
  with a Cons.prems(4) show ?case by (simp add: lookup_def)
qed

lemma fill_words_KeyError:
  "shape n l v a \<Longrightarrow> indices_below v m \<Longrightarrow> i < n \<Longrightarrow> j + length ws \<le> l
     \<Longrightarrow> List.find (\<lambda>w. m w = None) ws = Some w0
     \<Longrightarrow> fill_words m i j ws a = Inl (KeyError w0)"
proof (induction ws arbitrary: j a)
  case Nil
  then show ?case by simp
next
  case (Cons w rest)
  show ?case
  proof (cases "m w")
    case None
    with Cons.prems(5) show ?thesis by (simp add: lookup_def)
  next
    case (Some k)
    with Cons.prems(2) have "k < v" by (simp add: indices_below_def)
    with Cons.prems obtain a1 where a1: "setitem a i j k = Inr a1"
      using setitem_ok[of n l v a i j k] by auto
    have "shape n l v a1" by (rule shape_same[OF setitem_shape[OF a1] Cons.prems(1)])
    from Cons.IH[OF this Cons.prems(2,3), of "Suc j"] Cons.prems(4,5) Some
    have "fill_words m i (Suc j) rest a1 = Inl (KeyError w0)" by simp
    with Some a1 show ?thesis by (simp add: lookup_def)
  qed
qed

lemma fill_words_IndexError:
  "shape n l v a \<Longrightarrow> indices_below v m \<Longrightarrow> i < n \<Longrightarrow> j \<le> l \<Longrightarrow> l < j + length ws
     \<Longrightarrow> set ws \<subseteq> dom m
     \<Longrightarrow> fill_words m i j ws a = Inl (IndexError l)"
proof (induction ws arbitrary: j a)
  case Nil
  then show ?case by simp
next
  case (Cons w rest)
  from Cons.prems(6) obtain k where k: "m w = Some k" by auto
  with Cons.prems(2) have kv: "k < v" by (simp add: indices_below_def)
  show ?case
  proof (cases "j = l")
    case True
    with setitem_IndexError[OF Cons.prems(1,3), of j k] k show ?thesis
      by (simp add: lookup_def)
  next
    case False
    with Cons.prems(4) have jl: "j < l" by simp
    from setitem_ok[OF Cons.prems(1,3) jl kv] obtain a1 where a1: "setitem a i j k = Inr a1" ..
    have "shape n l v a1" by (rule shape_same[OF setitem_shape[OF a1] Cons.prems(1)])
    from Cons.IH[OF this Cons.prems(2,3), of "Suc j"] jl Cons.prems(5,6)
    have "fill_words m i (Suc j) rest a1 = Inl (IndexError l)" by simp
    with k a1 show ?thesis by (simp add: lookup_def)
  qed
qed

lemma find_append:
  "List.find P (xs @ ys) = (case List.find P xs of None \<Rightarrow> List.find P ys | Some x \<Rightarrow> Some x)"
  by (induction xs) auto

lemma fill_sents_KeyError:
  "shape n l v a \<Longrightarrow> indices_below v m \<Longrightarrow> i + length sents \<le> n \<Longrightarrow> m ''GAP'' = Some g
     \<Longrightarrow> \<forall>s\<in>set sents. length s \<le> l
     \<Longrightarrow> List.find (\<lambda>w. m w = None) (concat sents) = Some w0
     \<Longrightarrow> fill_sents m l i sents a = Inl (KeyError w0)"
proof (induction sents arbitrary: i a)
  case Nil
  then show ?case by simp
next
  case (Cons sent rest)
  from Cons.prems(3) have i: "i < n" by simp
  from Cons.prems(5) have len: "length sent \<le> l" by simp
  show ?case
  proof (cases "List.find (\<lambda>w. m w = None) sent")
    case (Some w)
    with Cons.prems(6) have "w = w0" by (simp add: find_append)
    with Some fill_words_KeyError[OF Cons.prems(1,2) i, of 0 sent w0] len
    show ?thesis by simp
  next
    case None
    then have dom: "set sent \<subseteq> dom m" by (auto simp: find_None_iff)
    from None Cons.prems(6) have rest: "List.find (\<lambda>w. m w = None) (concat rest) = Some w0"
      by (simp add: find_append)
    from fill_sentence_ok[OF Cons.prems(1,2) i len dom Cons.prems(4)]
    obtain a1 a2 where a: "fill_words m i 0 sent a = Inr a1"
        "fill_gaps i g [length sent..<l] a1 = Inr a2" "shape n l v a2"
      by auto
    from Cons.IH[OF a(3) Cons.prems(2) _ Cons.prems(4) _ rest, of "Suc i"] Cons.prems(3,5)
    have "fill_sents m l (Suc i) rest a2 = Inl (KeyError w0)" by simp
    with a Cons.prems(4) show ?thesis by (simp add: lookup_def)
  qed
qed

lemma fill_sents_IndexError:
  "shape n l v a \<Longrightarrow> indices_below v m \<Longrightarrow> i + length sents \<le> n \<Longrightarrow> m ''GAP'' = Some g
     \<Longrightarrow> \<forall>s\<in>set sents. set s \<subseteq> dom m
     \<Longrightarrow> \<exists>s\<in>set sents. l < length s
     \<Longrightarrow> fill_sents m l i sents a = Inl (IndexError l)"
proof (induction sents arbitrary: i a)
  case Nil
  then show ?case by simp
next
  case (Cons sent rest)
  from Cons.prems(3) have i: "i < n" by simp
  from Cons.prems(5) have dom: "set sent \<subseteq> dom m" by simp
  show ?case
  proof (cases "l < length sent")
    case True
    with fill_words_IndexError[OF Cons.prems(1,2) i _ _ dom, of 0] show ?thesis by simp
  next
    case False
    then have len: "length sent \<le> l" by simp
    from False Cons.prems(6) have rest: "\<exists>s\<in>set rest. l < length s" by simp
    from fill_sentence_ok[OF Cons.prems(1,2) i len dom Cons.prems(4)]
    obtain a1 a2 where a: "fill_words m i 0 sent a = Inr a1"
        "fill_gaps i g [length sent..<l] a1 = Inr a2" "shape n l v a2"
      by auto
    from Cons.IH[OF a(3) Cons.prems(2) _ Cons.prems(4) _ rest, of "Suc i"] Cons.prems(3,5)
    have "fill_sents m l (Suc i) rest a2 = Inl (IndexError l)" by simp
    with a Cons.prems(4) show ?thesis by (simp add: lookup_def)
  qed
qed

lemma one_hot_nonneg:
  "0 \<le> l \<Longrightarrow> one_hot sents vocab l =
     fill_sents (word2idx vocab) (nat l) 0 sents
       (replicate (length sents) (replicate (nat l) (replicate (length vocab) 0)))"
  by (simp add: one_hot_def np_zeros_def)

lemma one_hot_neg: "l < 0 \<Longrightarrow> one_hot sents vocab l = Inl ValueError"
  by (simp add: one_hot_def np_zeros_def)

lemma one_hot_Inr:
  assumes "one_hot sents vocab l = Inr a"
  shows "0 \<le> l" and "shape (length sents) (nat l) (length vocab) a"
    and "\<forall>s\<in>set sents. int (length s) \<le> l \<and> set s \<subseteq> set vocab \<and> ''GAP'' \<in> set vocab"
    and "i < length sents \<Longrightarrow> j < nat l \<Longrightarrow> k < length vocab \<Longrightarrow>
           a ! i ! j ! k = (if word2idx vocab (token_at (sents ! i) j) = Some k then 1 else 0)"
proof -
  let ?z = "replicate (length sents) (replicate (nat l) (replicate (length vocab) (0::int)))"
  show l: "0 \<le> l" using assms one_hot_neg[of l sents vocab] by (cases "0 \<le> l") auto
  with assms have f: "fill_sents (word2idx vocab) (nat l) 0 sents ?z = Inr a"
    by (simp add: one_hot_nonneg)
  have z: "shape (length sents) (nat l) (length vocab) ?z" by (rule shape_zeros)
  show "shape (length sents) (nat l) (length vocab) a"
    by (rule shape_same[OF fill_sents_shape[OF f] z])
  show "\<forall>s\<in>set sents. int (length s) \<le> l \<and> set s \<subseteq> set vocab \<and> ''GAP'' \<in> set vocab"
  proof
    fix s assume "s \<in> set sents"
    from fill_sents_needs[OF f shape_rows[OF z] this]
    have "length s \<le> nat l" "set s \<subseteq> set vocab" "''GAP'' \<in> set vocab"
      by (simp_all add: dom_word2idx)
    moreover from this(1) l have "int (length s) \<le> l" by linarith
    ultimately show "int (length s) \<le> l \<and> set s \<subseteq> set vocab \<and> ''GAP'' \<in> set vocab"
      by simp
  qed
  show "a ! i ! j ! k = (if word2idx vocab (token_at (sents ! i) j) = Some k then 1 else 0)"
    if "i < length sents" "j < nat l" "k < length vocab"
    using fill_sents_entry[OF f shape_rows[OF z], of i j k] that by simp
qed

text \<open>
  C1. Let every sentence of the corpus have at most \<open>L\<close> tokens, all of them in the
  vocabulary. Then the tensor the encoder builds has the shape \<open>N \<times> L \<times> V\<close>, and for
  every sentence \<open>i < N\<close> and position \<open>j < L\<close> there is exactly one index \<open>k0 < V\<close> whose
  entry is 1, every other entry of row \<open>(i, j)\<close> being 0: \<open>k0\<close> is the index of the token
  at position \<open>j\<close> of sentence \<open>i\<close> when \<open>j\<close> is below the sentence's length and the
  index of \<open>GAP\<close> otherwise. The tensor is built whenever the vocabulary holds \<open>GAP\<close>
  and \<open>L\<close> is not negative.
\<close>

theorem one_hot_invariant:
  assumes "\<forall>s\<in>set sents. int (length s) \<le> l \<and> set s \<subseteq> set vocab"
  shows "(''GAP'' \<in> set vocab \<and> 0 \<le> l \<longrightarrow> (\<exists>a. one_hot sents vocab l = Inr a))
    \<and> (\<forall>a. one_hot sents vocab l = Inr a \<longrightarrow>
          length a = length sents
          \<and> (\<forall>i<length sents. length (a ! i) = nat l
                \<and> (\<forall>j<nat l. length (a ! i ! j) = length vocab
                      \<and> (\<exists>k0<length vocab.
                            word2idx vocab (token_at (sents ! i) j) = Some k0
                            \<and> vocab ! k0 = token_at (sents ! i) j
                            \<and> (\<forall>k<length vocab. a ! i ! j ! k = (if k = k0 then 1 else 0))))))"
proof (intro conjI impI allI)
  assume h: "''GAP'' \<in> set vocab \<and> 0 \<le> l"
  let ?z = "replicate (length sents) (replicate (nat l) (replicate (length vocab) (0::int)))"
  from h have "''GAP'' \<in> dom (word2idx vocab)" by (simp add: dom_word2idx)
  then obtain g where g: "word2idx vocab ''GAP'' = Some g" by auto
  have "\<forall>s\<in>set sents. length s \<le> nat l \<and> set s \<subseteq> dom (word2idx vocab)"
    using assms h by (auto simp: dom_word2idx)
  from fill_sents_ok[OF shape_zeros indices_below_word2idx _ g this, of 0 "length sents"]
  show "\<exists>a. one_hot sents vocab l = Inr a"
    using h by (simp add: one_hot_nonneg)
next
  fix a assume a: "one_hot sents vocab l = Inr a"
  note sh = one_hot_Inr(2)[OF a]
  then show "length a = length sents" by (simp add: shape_def)
  fix i assume i: "i < length sents"
  with sh show "length (a ! i) = nat l" by (simp add: shape_def)
  fix j assume j: "j < nat l"
  with i sh show "length (a ! i ! j) = length vocab" by (simp add: shape_def)
  from i have "sents ! i \<in> set sents" by simp
  with one_hot_Inr(3)[OF a] have "set (sents ! i) \<subseteq> set vocab" "''GAP'' \<in> set vocab"
    by blast+
  then have "token_at (sents ! i) j \<in> set vocab"
    using nth_mem[of j "sents ! i"] by (auto simp: token_at_def)
  then obtain k0 where k0: "word2idx vocab (token_at (sents ! i) j) = Some k0"
    using dom_word2idx[of vocab] by auto
  have "\<forall>k<length vocab. a ! i ! j ! k = (if k = k0 then 1 else 0)"
    using one_hot_Inr(4)[OF a i j] k0 by auto
  with k0 word2idx_Some[OF k0]
  show "\<exists>k0<length vocab.
          word2idx vocab (token_at (sents ! i) j) = Some k0
          \<and> vocab ! k0 = token_at (sents ! i) j
          \<and> (\<forall>k<length vocab. a ! i ! j ! k = (if k = k0 then 1 else 0))"
    by blast
qed

text \<open>
  C5, as the code has it. Let \<open>w0\<close> be the first token of the corpus, in reading order,
  that the vocabulary does not hold. Then the construction never returns a tensor. When
  every sentence has at most \<open>L\<close> tokens and the vocabulary holds \<open>GAP\<close>, the exception
  is the \<open>KeyError\<close> of the lookup of \<open>w0\<close>; otherwise an earlier statement may raise
  first (see the counterexample below).
\<close>

theorem one_hot_missing_token:
  assumes "List.find (\<lambda>w. w \<notin> set vocab) (concat sents) = Some w0"
  shows "(\<exists>e. one_hot sents vocab l = Inl e)
    \<and> ((\<forall>s\<in>set sents. int (length s) \<le> l) \<and> ''GAP'' \<in> set vocab
          \<longrightarrow> one_hot sents vocab l = Inl (KeyError w0))"
proof (intro conjI impI)
  from assms have w0: "w0 \<in> set (concat sents)" "w0 \<notin> set vocab"
    by (metis find_Some_iff nth_mem, metis find_Some_iff)
  show "\<exists>e. one_hot sents vocab l = Inl e"
  proof (cases "one_hot sents vocab l")
    case (Inl e)
    then show ?thesis by blast
  next
    case (Inr a)
    from one_hot_Inr(3)[OF Inr] w0 show ?thesis by auto
  qed
next
  assume h: "(\<forall>s\<in>set sents. int (length s) \<le> l) \<and> ''GAP'' \<in> set vocab"
  from assms have "sents \<noteq> []" by auto
  then obtain s where "s \<in> set sents" by (cases sents) auto
  with h have l: "0 \<le> l" by force
  from h have "''GAP'' \<in> dom (word2idx vocab)" by (simp add: dom_word2idx)
  then obtain g where g: "word2idx vocab ''GAP'' = Some g" by auto
  have len: "\<forall>s\<in>set sents. length s \<le> nat l" using h l by auto
  have "(\<lambda>w. w \<notin> set vocab) = (\<lambda>w. word2idx vocab w = None)"
    using dom_word2idx[of vocab] by (auto simp: fun_eq_iff)
  with assms have "List.find (\<lambda>w. word2idx vocab w = None) (concat sents) = Some w0" by simp
  from fill_sents_KeyError[OF shape_zeros indices_below_word2idx _ g len this, of 0 "length sents"]
  show "one_hot sents vocab l = Inl (KeyError w0)"
    using l by (simp add: one_hot_nonneg)
qed

text \<open>
  C10, as the code has it. If some sentence has more than \<open>L\<close> tokens, the construction
  never returns a tensor. When \<open>L\<close> is not negative and the vocabulary holds \<open>GAP\<close> and
  every token of the corpus, the exception is the \<open>IndexError\<close> of the write at position
  \<open>L\<close>; otherwise an earlier statement may raise first (see the counterexample below).
\<close>

theorem one_hot_sentence_too_long:
  assumes "\<exists>s\<in>set sents. l < int (length s)"
  shows "(\<exists>e. one_hot sents vocab l = Inl e)
    \<and> (0 \<le> l \<and> ''GAP'' \<in> set vocab \<and> (\<forall>s\<in>set sents. set s \<subseteq> set vocab)
          \<longrightarrow> one_hot sents vocab l = Inl (IndexError (nat l)))"
proof (intro conjI impI)
  show "\<exists>e. one_hot sents vocab l = Inl e"
  proof (cases "one_hot sents vocab l")
    case (Inl e)
    then show ?thesis by blast
  next
    case (Inr a)
    from one_hot_Inr(3)[OF Inr] assms show ?thesis by force
  qed
next
  assume h: "0 \<le> l \<and> ''GAP'' \<in> set vocab \<and> (\<forall>s\<in>set sents. set s \<subseteq> set vocab)"
  from h have "''GAP'' \<in> dom (word2idx vocab)" by (simp add: dom_word2idx)
  then obtain g where g: "word2idx vocab ''GAP'' = Some g" by auto
  have dom: "\<forall>s\<in>set sents. set s \<subseteq> dom (word2idx vocab)"
    using h by (simp add: dom_word2idx)
  from assms obtain s where s: "s \<in> set sents" "l < int (length s)" by blast
  from s(2) h have "nat l < length s" by linarith
  with s(1) have long: "\<exists>s\<in>set sents. nat l < length s" by blast
  from fill_sents_IndexError[OF shape_zeros indices_below_word2idx _ g dom long, of 0 "length sents"]
  show "one_hot sents vocab l = Inl (IndexError (nat l))"
    using h by (simp add: one_hot_nonneg)
qed

text \<open>
  The scenario of the specification: the corpus \<open>[[the, cat, sat], [dog]]\<close> with its own
  vocabulary and \<open>L = 3\<close>. Sentence 0 has no padding, sentence 1 has \<open>GAP\<close> (index 0) at
  positions 1 and 2.
\<close>

lemma one_hot_example:
  "one_hot [[''the'', ''cat'', ''sat''], [''dog'']] (get_vocabulary [[''the'', ''cat'', ''sat''], [''dog'']]) 3
     = Inr [[[0, 0, 0, 0, 1], [0, 1, 0, 0, 0], [0, 0, 0, 1, 0]],
            [[0, 0, 1, 0, 0], [1, 0, 0, 0, 0], [1, 0, 0, 0, 0]]]"
  by (simp add: one_hot_def np_zeros_def word2idx_def lookup_def setitem_def get_vocabulary_def
      upt_rec[of 1 3] upt_rec[of 2 3] numeral_3_eq_3)

text \<open>The hypotheses of C1 hold for the corpus of the specification's scenario.\<close>

theorem one_hot_invariant_witness:
  "int (length [''the'', ''cat'', ''sat'']) \<le> 3 \<and> int (length [''dog'']) \<le> 3
   \<and> set [''the'', ''cat'', ''sat''] \<subseteq> set [''GAP'', ''cat'', ''dog'', ''sat'', ''the'']
   \<and> set [''dog''] \<subseteq> set [''GAP'', ''cat'', ''dog'', ''sat'', ''the'']
   \<and> (\<exists>a. one_hot [[''the'', ''cat'', ''sat''], [''dog'']] [''GAP'', ''cat'', ''dog'', ''sat'', ''the''] 3 = Inr a
          \<and> length a = 2 \<and> length (a ! 1) = 3)"
proof -
  let ?S = "[[''the'', ''cat'', ''sat''], [''dog'']]"
  let ?V = "[''GAP'', ''cat'', ''dog'', ''sat'', ''the'']"
  have h: "\<forall>s\<in>set ?S. int (length s) \<le> 3 \<and> set s \<subseteq> set ?V" by simp
  note t = one_hot_invariant[OF h]
  from t obtain a where a: "one_hot ?S ?V 3 = Inr a" by auto
  with t have "length a = length ?S \<and> (\<forall>i<length ?S. length (a ! i) = nat 3)"
    by blast
  then have "length a = 2 \<and> length (a ! 1) = 3" by simp
  with a show ?thesis by simp
qed

text \<open>C5 at a corpus whose second token is unknown.\<close>

theorem one_hot_missing_token_witness:
  "List.find (\<lambda>w. w \<notin> set [''GAP'', ''the'']) (concat [[''the'', ''zzz'']]) = Some ''zzz''
   \<and> one_hot [[''the'', ''zzz'']] [''GAP'', ''the''] 2 = Inl (KeyError ''zzz'')"
proof -
  have h: "List.find (\<lambda>w. w \<notin> set [''GAP'', ''the'']) (concat [[''the'', ''zzz'']]) = Some ''zzz''"
    by simp
  from one_hot_missing_token[OF h, of 2] h show ?thesis by simp
qed

text \<open>
  C5 as stated fails when the sentence with the unknown token is longer than \<open>L\<close> and the
  unknown token lies beyond position \<open>L\<close>: the write at position \<open>L = 1\<close> raises
  \<open>IndexError\<close> before \<open>zzz\<close> is ever looked up.
\<close>

theorem one_hot_missing_token_counterexample:
  "''zzz'' \<in> set [''a'', ''a'', ''zzz''] \<and> ''zzz'' \<notin> set [''GAP'', ''a'']
   \<and> one_hot [[''a'', ''a'', ''zzz'']] [''GAP'', ''a''] 1 = Inl (IndexError 1)"
  by (simp add: one_hot_def np_zeros_def word2idx_def lookup_def setitem_def)

text \<open>C10 at a sentence of two known tokens and \<open>L = 1\<close>.\<close>

theorem one_hot_sentence_too_long_witness:
  "(\<exists>s\<in>set [[''a'', ''a'']]. 1 < int (length s))
   \<and> one_hot [[''a'', ''a'']] [''GAP'', ''a''] 1 = Inl (IndexError 1)"
proof -
  have h: "\<exists>s\<in>set [[''a'', ''a'']]. 1 < int (length s)" by simp
  from one_hot_sentence_too_long[OF h, of "[''GAP'', ''a'']"] h show ?thesis by simp
qed

text \<open>
  C10 as stated fails when the over-long sentence holds an unknown token at a position
  below \<open>L\<close>: the lookup raises \<open>KeyError\<close> before any write outside the array.
\<close>

theorem one_hot_sentence_too_long_counterexample:
  "1 < int (length [''zzz'', ''a''])
   \<and> one_hot [[''zzz'', ''a'']] [''GAP'', ''a''] 1 = Inl (KeyError ''zzz'')"
  by (simp add: one_hot_def np_zeros_def word2idx_def lookup_def setitem_def)

text \<open>
  The flattened view stored in the object: entry \<open>(j, k)\<close> of sentence \<open>i\<close> sits in
  column \<open>j * V + k\<close> of row \<open>i\<close>.
\<close>

lemma concat_nth_uniform:
  "\<forall>r\<in>set rows. length r = v \<Longrightarrow> j < length rows \<Longrightarrow> k < v
     \<Longrightarrow> concat rows ! (j * v + k) = rows ! j ! k"
proof (induction rows arbitrary: j)
  case Nil
  then show ?case by simp
next
  case (Cons r rs)
  show ?case
  proof (cases j)
    case 0
    with Cons.prems show ?thesis by (simp add: nth_append)
  next
    case (Suc j')
    from Cons.prems have len: "length r = v" by simp
    from Cons.prems Suc have "concat rs ! (j' * v + k) = rs ! j' ! k"
      by (intro Cons.IH) simp_all
    moreover have "(r @ concat rs) ! (length r + (j' * v + k)) = concat rs ! (j' * v + k)"
      by (rule nth_append_length_plus)
    ultimately show ?thesis using Suc len by (simp add: add.assoc)
  qed
qed

lemma OneHot_init_flat:
  assumes "OneHot_init title sents vocab m l = Inr obj"
  shows "\<exists>a. one_hot sents vocab l = Inr a \<and> self_N obj = length sents \<and> self_V obj = length vocab
           \<and> self_L obj = l \<and> length (self_onehot_flat obj) = length sents
           \<and> (\<forall>i<length sents. \<forall>j<nat l. \<forall>k<length vocab.
                 self_onehot_flat obj ! i ! (j * length vocab + k) = a ! i ! j ! k)"
proof -
  from assms obtain a where a: "one_hot sents vocab l = Inr a"
      and obj: "obj = \<lparr> self_book = title, self_sentences = sents, self_vocabulary = vocab,
                self_M = m, self_L = l, self_word2idx = word2idx vocab, self_N = length sents,
                self_V = length vocab, self_onehot_flat = map concat a \<rparr>"
    by (auto simp: OneHot_init_def split: sum.splits)
  note sh = one_hot_Inr(2)[OF a]
  have "self_onehot_flat obj ! i ! (j * length vocab + k) = a ! i ! j ! k"
    if "i < length sents" "j < nat l" "k < length vocab" for i j k
  proof -
    from sh that have "\<forall>r\<in>set (a ! i). length r = length vocab" "j < length (a ! i)" "i < length a"
      by (auto simp: shape_def in_set_conv_nth)
    with that(3) show ?thesis
      by (simp add: obj concat_nth_uniform)
  qed
  with a obj sh show ?thesis by (simp add: shape_def)
qed

section \<open>Properties of the string operations\<close>

lemma is_upper_code: "is_upper c \<longleftrightarrow> 65 \<le> (of_char c :: nat) \<and> (of_char c :: nat) \<le> 90"
  by (simp add: is_upper_def less_eq_char_def)

lemma is_lower_code: "is_lower c \<longleftrightarrow> 97 \<le> (of_char c :: nat) \<and> (of_char c :: nat) \<le> 122"
  by (simp add: is_lower_def less_eq_char_def)

lemma is_digit_code: "is_digit c \<longleftrightarrow> 48 \<le> (of_char c :: nat) \<and> (of_char c :: nat) \<le> 57"
  by (simp add: is_digit_def less_eq_char_def)

lemma of_char_lower_char:
  "(of_char (lower_char c) :: nat) = (if is_upper c then of_char c + 32 else of_char c)"
  by (simp add: lower_char_def is_upper_code)

lemma lower_char_idem: "lower_char (lower_char c) = lower_char c"
proof -
  have "\<not> is_upper (lower_char c)"
    by (simp add: is_upper_code of_char_lower_char)
  then show ?thesis by (simp add: lower_char_def)
qed

lemma is_alnum_lower_char: "is_alnum (lower_char c) \<longleftrightarrow> is_alnum c"
  by (auto simp: is_alnum_def is_upper_code is_lower_code is_digit_code of_char_lower_char)

lemma strip_chars_code:
  "c \<in> set (CHR ''_'' # PUNCT) \<Longrightarrow>
     (of_char c :: nat) \<in> {96, 33, 64, 35, 36, 37, 94, 38, 42, 40, 41, 95, 45, 43, 61, 91, 93, 124,
        59, 58, 60, 62, 44, 46, 63, 47, 123, 92, 125}"
  by (auto simp: PUNCT_def)

lemma strip_chars_not_alnum: "c \<in> set (CHR ''_'' # PUNCT) \<Longrightarrow> \<not> is_alnum c"
  by (drule strip_chars_code) (auto simp: is_alnum_def is_upper_code is_lower_code is_digit_code)

lemma strip_chars_lower_char: "lower_char c \<in> set (CHR ''_'' # PUNCT) \<longleftrightarrow> c \<in> set (CHR ''_'' # PUNCT)"
proof (cases "is_upper c")
  case True
  then have "is_alnum c" "is_alnum (lower_char c)"
    by (simp_all add: is_alnum_lower_char) (simp_all add: is_alnum_def)
  then show ?thesis using strip_chars_not_alnum by blast
next
  case False
  then show ?thesis by (simp add: lower_char_def)
qed

section \<open>Properties of the Roman-Numeral Classifier\<close>

lemma rmatch_lang:
  "anchor_free r \<Longrightarrow> set (rmatch s r rest) = {v. \<exists>u\<in>lang r. rest = u @ v}"
proof (induction r arbitrary: rest)
  case (Lit c)
  show ?case by (cases rest) auto
next
  case (Seq a b)
  then have a: "\<And>rest. set (rmatch s a rest) = {v. \<exists>u\<in>lang a. rest = u @ v}"
    and b: "\<And>rest. set (rmatch s b rest) = {v. \<exists>u\<in>lang b. rest = u @ v}"
    by simp_all
  show ?case
  proof (intro set_eqI iffI)
    fix v assume "v \<in> set (rmatch s (Seq a b) rest)"
    then obtain x where "x \<in> set (rmatch s a rest)" "v \<in> set (rmatch s b x)" by auto
    then obtain u1 u2 where "u1 \<in> lang a" "rest = u1 @ x" "u2 \<in> lang b" "x = u2 @ v"
      unfolding a b by blast
    then have "u1 @ u2 \<in> lang (Seq a b)" "rest = (u1 @ u2) @ v" by auto
    then show "v \<in> {v. \<exists>u\<in>lang (Seq a b). rest = u @ v}" by blast
  next
    fix v assume "v \<in> {v. \<exists>u\<in>lang (Seq a b). rest = u @ v}"
    then obtain u1 u2 where u: "u1 \<in> lang a" "u2 \<in> lang b" "rest = (u1 @ u2) @ v" by auto
    then have "u2 @ v \<in> set (rmatch s a rest)" "v \<in> set (rmatch s b (u2 @ v))"
      unfolding a b by auto
    then show "v \<in> set (rmatch s (Seq a b) rest)" by auto
  qed
next
  case (Alt a b)
  then show ?case by auto
next
  case (Opt a)
  then show ?case by auto
qed simp_all

lemma anchor_free_roman_grammar: "anchor_free roman_grammar"
  by (simp add: roman_grammar_def upto3_def lit2_def)

text \<open>What the classifier computes: a full match of the grammar, or one followed by a newline.\<close>

lemma is_roman_iff:
  "is_roman w \<longleftrightarrow> w \<in> lang roman_grammar \<or> (\<exists>u\<in>lang roman_grammar. w = u @ [CHR 0x0A])"
proof -
  have "is_roman w \<longleftrightarrow> (\<exists>v\<in>set (rmatch w roman_grammar w). v = [] \<or> v = [CHR 0x0A])"
    by (auto simp: is_roman_def re_match_def roman_pattern_def)
  also have "\<dots> \<longleftrightarrow> w \<in> lang roman_grammar \<or> (\<exists>u\<in>lang roman_grammar. w = u @ [CHR 0x0A])"
    unfolding rmatch_lang[OF anchor_free_roman_grammar] by auto
  finally show ?thesis .
qed

lemma lang_literals:
  "w \<in> lang r \<Longrightarrow> d \<in> set w \<Longrightarrow> \<exists>c\<in>literals r. lower_char d = lower_char c"
proof (induction r arbitrary: w)
  case (Seq a b)
  from Seq.prems(1) obtain u v where "u \<in> lang a" "v \<in> lang b" "w = u @ v" by auto
  with Seq.prems(2) Seq.IH(1)[of u] Seq.IH(2)[of v] show ?case by auto
qed auto

lemma literals_roman_grammar:
  "literals roman_grammar = {CHR ''M'', CHR ''C'', CHR ''D'', CHR ''X'', CHR ''L'', CHR ''V'', CHR ''I''}"
  by (auto simp: roman_grammar_def upto3_def lit2_def)


lemma lower_char_roman_literals:
  "lower_char CHR ''M'' = CHR ''m''" "lower_char CHR ''C'' = CHR ''c''"
  "lower_char CHR ''D'' = CHR ''d''" "lower_char CHR ''X'' = CHR ''x''"
  "lower_char CHR ''L'' = CHR ''l''" "lower_char CHR ''V'' = CHR ''v''"
  "lower_char CHR ''I'' = CHR ''i''"
  by code_simp+

lemma roman_letters:
  assumes "w \<in> lang roman_grammar" "d \<in> set w"
  shows "lower_char d \<in> {CHR ''m'', CHR ''c'', CHR ''d'', CHR ''x'', CHR ''l'', CHR ''v'', CHR ''i''}"
proof -
  from lang_literals[OF assms] obtain c where c: "c \<in> literals roman_grammar"
      and d: "lower_char d = lower_char c"
    by blast
  from c have "lower_char c \<in> {CHR ''m'', CHR ''c'', CHR ''d'', CHR ''x'', CHR ''l'', CHR ''v'', CHR ''i''}"
    unfolding literals_roman_grammar using lower_char_roman_literals by auto
  with d show ?thesis by simp
qed

lemma empty_in_roman_grammar: "[] \<in> lang roman_grammar"
  by (simp add: roman_grammar_def upto3_def)

text \<open>The classifier accepts the empty token, and rejects a token with a foreign character.\<close>

lemma is_roman_empty: "is_roman []"
  by (simp add: is_roman_iff empty_in_roman_grammar)

lemma is_roman_foreign_character:
  assumes "is_roman w" "d \<in> set w"
  shows "lower_char d \<in> {CHR ''m'', CHR ''c'', CHR ''d'', CHR ''x'', CHR ''l'', CHR ''v'', CHR ''i''}
         \<or> (d = CHR 0x0A \<and> last w = CHR 0x0A)"
proof -
  from assms(1) consider "w \<in> lang roman_grammar"
    | u where "u \<in> lang roman_grammar" "w = u @ [CHR 0x0A]"
    unfolding is_roman_iff by blast
  then show ?thesis
  proof cases
    case 1
    from roman_letters[OF 1 assms(2)] show ?thesis by blast
  next
    case 2
    show ?thesis
    proof (cases "d \<in> set u")
      case True
      from roman_letters[OF 2(1) True] show ?thesis by blast
    next
      case False
      with assms(2) 2(2) show ?thesis by simp
    qed
  qed
qed

text \<open>
  C8. The classifier anchors the grammar with \<open>^\<close> and \<open>$\<close>, and \<open>$\<close> also matches
  before a final newline: the token \<open>IV\<close> followed by a newline is accepted, although it
  is not a word of the grammar.
\<close>

theorem is_roman_trailing_newline:
  "is_roman (''IV'' @ [CHR 0x0A]) \<and> ''IV'' @ [CHR 0x0A] \<notin> lang roman_grammar"
proof
  show "is_roman (''IV'' @ [CHR 0x0A])"
    by code_simp
  show "''IV'' @ [CHR 0x0A] \<notin> lang roman_grammar"
  proof
    assume "''IV'' @ [CHR 0x0A] \<in> lang roman_grammar"
    from roman_letters[OF this, of "CHR 0x0A"]
    have "lower_char (CHR 0x0A) \<in> {CHR ''m'', CHR ''c'', CHR ''d'', CHR ''x'', CHR ''l'', CHR ''v'', CHR ''i''}"
      by simp
    moreover have "lower_char (CHR 0x0A) = CHR 0x0A" by code_simp
    ultimately show False by simp
  qed
qed

section \<open>Properties of the token normaliser\<close>

lemma dropWhile_fixed: "xs \<noteq> [] \<Longrightarrow> \<not> P (hd xs) \<Longrightarrow> dropWhile P xs = xs"
  by (cases xs) simp_all

lemma strip_fixed:
  assumes "u \<noteq> []" "hd u \<notin> set chars" "last u \<notin> set chars"
  shows "strip chars u = u"
proof -
  have 1: "dropWhile (\<lambda>c. c \<in> set chars) u = u"
    using assms(1,2) by (rule dropWhile_fixed)
  have "rev u \<noteq> []" "hd (rev u) \<notin> set chars"
    using assms(1,3) by (simp_all add: hd_rev)
  then have 2: "dropWhile (\<lambda>c. c \<in> set chars) (rev u) = rev u"
    by (rule dropWhile_fixed)
  show ?thesis unfolding strip_def 1 2 by simp
qed

lemma strip_ends:
  assumes "strip chars w \<noteq> []"
  shows "hd (strip chars w) \<notin> set chars" "last (strip chars w) \<notin> set chars"
proof -
  define P where "P = (\<lambda>c. c \<in> set chars)"
  define v where "v = dropWhile P w"
  define x where "x = dropWhile P (rev v)"
  have u: "strip chars w = rev x" unfolding strip_def x_def v_def P_def ..
  from assms u have x: "x \<noteq> []" by simp
  then have hx: "\<not> P (hd x)" unfolding x_def by (rule hd_dropWhile)
  from x have v: "v \<noteq> []" unfolding x_def by auto
  then have hv: "\<not> P (hd v)" unfolding v_def by (rule hd_dropWhile)
  from v have "last (rev v) \<in> set (rev v)" by (intro last_in_set) simp
  moreover from v hv have "\<not> P (last (rev v))" by (simp add: last_rev)
  ultimately have "last x = last (rev v)" unfolding x_def by (rule dropWhile_last)
  with v hv have "\<not> P (last x)" by (simp add: last_rev)
  with x have "\<not> P (hd (rev x))" by (simp add: hd_rev)
  then show "hd (strip chars w) \<notin> set chars" unfolding u P_def .
  from hx x have "\<not> P (last (rev x))" by (simp add: last_rev)
  then show "last (strip chars w) \<notin> set chars" unfolding u P_def .
qed

lemma strip_idem: "strip chars (strip chars w) = strip chars w"
proof (cases "strip chars w = []")
  case True
  have "strip chars [] = []" by (simp add: strip_def)
  with True show ?thesis by simp
next
  case False
  from strip_fixed[OF False strip_ends[OF False]] show ?thesis .
qed

lemma strip_lower:
  assumes "\<And>c. lower_char c \<in> set chars \<longleftrightarrow> c \<in> set chars"
  shows "strip chars (lower w) = lower (strip chars w)"
proof -
  have "(\<lambda>c. c \<in> set chars) \<circ> lower_char = (\<lambda>c. c \<in> set chars)"
    using assms by (simp add: fun_eq_iff)
  then have d: "\<And>xs. dropWhile (\<lambda>c. c \<in> set chars) (map lower_char xs)
      = map lower_char (dropWhile (\<lambda>c. c \<in> set chars) xs)"
    by (simp only: dropWhile_map)
  show ?thesis
    unfolding strip_def lower_def by (simp only: d rev_map)
qed

lemma lower_idem: "lower (lower w) = lower w"
  by (simp add: lower_def lower_char_idem)

lemma has_alnum_lower: "has_alnum (lower w) \<longleftrightarrow> has_alnum w"
  by (simp add: has_alnum_def lower_def list_ex_iff is_alnum_lower_char)

lemma has_alnum_dropWhile:
  assumes "\<And>c. P c \<Longrightarrow> \<not> is_alnum c"
  shows "has_alnum (dropWhile P w) \<longleftrightarrow> has_alnum w"
proof -
  have "w = takeWhile P w @ dropWhile P w" by simp
  then have "has_alnum w \<longleftrightarrow> has_alnum (takeWhile P w) \<or> has_alnum (dropWhile P w)"
    unfolding has_alnum_def list_ex_iff by (metis Un_iff set_append)
  moreover have "\<not> has_alnum (takeWhile P w)"
    using assms by (auto simp: has_alnum_def list_ex_iff dest: set_takeWhileD)
  ultimately show ?thesis by simp
qed

lemma has_alnum_rev: "has_alnum (rev w) \<longleftrightarrow> has_alnum w"
  by (simp add: has_alnum_def list_ex_iff)

lemma has_alnum_strip: "has_alnum (strip (CHR ''_'' # PUNCT) w) \<longleftrightarrow> has_alnum w"
  unfolding strip_def
  by (simp only: has_alnum_rev has_alnum_dropWhile[of "\<lambda>c. c \<in> set (CHR ''_'' # PUNCT)", OF strip_chars_not_alnum])

lemma has_alnum_not_in_PUNCT: "has_alnum t \<Longrightarrow> \<not> in_PUNCT t"
proof
  assume a: "has_alnum t" and "in_PUNCT t"
  then obtain c where c: "t = [c]" "c \<in> set PUNCT"
    by (auto simp: in_PUNCT_def split: list.splits)
  then have "c \<in> set (CHR ''_'' # PUNCT)" by simp
  from strip_chars_not_alnum[OF this] a c show False by (simp add: has_alnum_def)
qed


lemma clean_word_cases:
  "clean_word (word, PoS) = Some t \<longleftrightarrow>
     has_alnum word \<and> \<not> isdigit word \<and> \<not> (1 < length word \<and> is_roman word) \<and> \<not> in_PUNCT word
     \<and> (if PoS = ''NNP'' then t = word
          else t = lower (strip (CHR ''_'' # PUNCT) word) \<and> t \<noteq> []
               \<and> (length t = 1 \<longrightarrow> t \<in> {''a'', ''i''}))"
  by (auto simp: clean_word_def Let_def)


text \<open>What the normaliser keeps has a letter or a digit.\<close>

lemma clean_word_has_alnum: "clean_word p = Some t \<Longrightarrow> has_alnum t"
proof (cases p)
  case (Pair word PoS)
  assume "clean_word p = Some t"
  with Pair have "clean_word (word, PoS) = Some t" by simp
  then have c: "has_alnum word"
      "if PoS = ''NNP'' then t = word else t = lower (strip (CHR ''_'' # PUNCT) word)"
    unfolding clean_word_cases by (blast, metis)
  show ?thesis
  proof (cases "PoS = ''NNP''")
    case True
    with c show ?thesis by simp
  next
    case False
    with c have "t = lower (strip (CHR ''_'' # PUNCT) word)" by simp
    with c(1) show ?thesis by (simp only: has_alnum_lower has_alnum_strip)
  qed
qed

text \<open>A token that is not kept as a proper noun comes out in normal form.\<close>

lemma clean_word_normal_form:
  assumes "clean_word (word, PoS) = Some t" "PoS \<noteq> ''NNP''"
  shows "normal_form t"
proof -
  let ?w = "lower (strip (CHR ''_'' # PUNCT) word)"
  from assms(1) have "if PoS = ''NNP'' then t = word
      else t = ?w \<and> t \<noteq> [] \<and> (length t = 1 \<longrightarrow> t \<in> {''a'', ''i''})"
    unfolding clean_word_cases by blast
  with assms(2) have "t = ?w \<and> t \<noteq> [] \<and> (length t = 1 \<longrightarrow> t \<in> {''a'', ''i''})"
    by metis
  then have t: "t = ?w" and len: "length t = 1 \<longrightarrow> t \<in> {''a'', ''i''}"
    by blast+
  have "lower (strip (CHR ''_'' # PUNCT) ?w) = ?w"
    by (simp only: strip_lower[of "CHR ''_'' # PUNCT", OF strip_chars_lower_char] strip_idem lower_idem)
  with t len show ?thesis unfolding normal_form_def by simp
qed

text \<open>When the normaliser leaves a token as it is.\<close>

lemma clean_word_fixed:
  assumes "has_alnum t" "\<not> isdigit t" "\<not> (1 < length t \<and> is_roman t)"
    and "PoS = ''NNP'' \<or> normal_form t"
  shows "clean_word (t, PoS) = Some t"
proof -
  from assms(1) have ne: "t \<noteq> []" by (auto simp: has_alnum_def)
  from assms(1) have np: "\<not> in_PUNCT t" by (rule has_alnum_not_in_PUNCT)
  show ?thesis
  proof (cases "PoS = ''NNP''")
    case True
    with assms(1-3) np show ?thesis
      unfolding clean_word_cases by metis
  next
    case False
    with assms(4) have "normal_form t" by simp
    then have "t = lower (strip (CHR ''_'' # PUNCT) t)" "length t = 1 \<longrightarrow> t \<in> {''a'', ''i''}"
      unfolding normal_form_def by simp_all
    with assms(1-3) np ne False show ?thesis
      unfolding clean_word_cases by metis
  qed
qed

section \<open>Properties of the Sentence Filter and Cleaner\<close>

text \<open>The loops of \<open>clean_sents\<close> as maps and filters.\<close>

lemma clean_tokens_eq: "clean_tokens ps clean = clean @ List.map_filter clean_word ps"
  by (induction ps arbitrary: clean) (auto split: option.splits)

lemma clean_loop_eq:
  "clean_loop tagger M L sents cleaned =
     cleaned @ filter (\<lambda>c. M \<le> int (length c) \<and> int (length c) \<le> L)
                 (map (\<lambda>s. clean_tokens (pos_tag tagger s) [])
                   (filter (\<lambda>s. \<not> chapter_heading s) sents))"
  by (induction sents arbitrary: cleaned) (auto simp: Let_def)

lemma clean_sents_eq:
  "clean_sents tagger sentences M L =
     filter (\<lambda>c. M \<le> int (length c) \<and> int (length c) \<le> L)
       (map (\<lambda>s. clean_tokens (pos_tag tagger s) [])
         (filter (\<lambda>s. \<not> chapter_heading s) (filtered sentences M L)))"
  by (simp add: clean_sents_def clean_loop_eq)

text \<open>
  C2. For every corpus and all bounds \<open>M\<close>, \<open>L\<close> (in particular for \<open>0 \<le> M \<le> L\<close>):
  every sentence of the output has between \<open>M\<close> and \<open>L\<close> tokens; the output consists of
  the complete cleaned token sequences of the admitted sentences whose cleaned length lies
  in \<open>[M, L]\<close>, the others being left out as a whole and none being cut; and the
  pre-filter admits exactly the raw sentences with between \<open>M\<close> and \<open>L + 1\<close> tokens.
\<close>

theorem clean_sents_length_bounds:
  "(\<forall>s\<in>set (clean_sents tagger sentences M L). M \<le> int (length s) \<and> int (length s) \<le> L)
   \<and> clean_sents tagger sentences M L =
       filter (\<lambda>c. M \<le> int (length c) \<and> int (length c) \<le> L)
         (map (\<lambda>s. clean_tokens (pos_tag tagger s) [])
           (filter (\<lambda>s. \<not> chapter_heading s) (filtered sentences M L)))
   \<and> (\<forall>s. s \<in> set (filtered sentences M L) \<longleftrightarrow>
            s \<in> set sentences \<and> M \<le> int (length s) \<and> int (length s) \<le> L + 1)"
proof (intro conjI)
  show "\<forall>s\<in>set (clean_sents tagger sentences M L). M \<le> int (length s) \<and> int (length s) \<le> L"
    by (simp add: clean_sents_eq)
  show "clean_sents tagger sentences M L =
       filter (\<lambda>c. M \<le> int (length c) \<and> int (length c) \<le> L)
         (map (\<lambda>s. clean_tokens (pos_tag tagger s) [])
           (filter (\<lambda>s. \<not> chapter_heading s) (filtered sentences M L)))"
    by (rule clean_sents_eq)
  show "\<forall>s. s \<in> set (filtered sentences M L) \<longleftrightarrow>
            s \<in> set sentences \<and> M \<le> int (length s) \<and> int (length s) \<le> L + 1"
    by (simp add: filtered_def)
qed

text \<open>C2 at a corpus of two sentences, the second of which becomes too short.\<close>

theorem clean_sents_length_bounds_witness:
  "clean_sents tag_nn [[''The'', ''cat'', ''sat'', ''.''], [''Oh'', ''!'']] 2 3 = [[''the'', ''cat'', ''sat'']]
   \<and> 2 \<le> int (length [''the'', ''cat'', ''sat'']) \<and> int (length [''the'', ''cat'', ''sat'']) \<le> 3"
proof -
  have e: "clean_sents tag_nn [[''The'', ''cat'', ''sat'', ''.''], [''Oh'', ''!'']] 2 3 = [[''the'', ''cat'', ''sat'']]"
    by code_simp
  from clean_sents_length_bounds[of tag_nn "[[''The'', ''cat'', ''sat'', ''.''], [''Oh'', ''!'']]" 2 3]
  have "\<forall>s\<in>set (clean_sents tag_nn [[''The'', ''cat'', ''sat'', ''.''], [''Oh'', ''!'']] 2 3).
          2 \<le> int (length s) \<and> int (length s) \<le> 3"
    by blast
  with e show ?thesis by simp
qed

text \<open>
  C6, as the code has it. The bounds are never checked: with a minimum length above the
  maximum length the cleaner runs its filters as usual and returns the empty corpus.
\<close>

theorem clean_sents_malformed_bounds:
  "L < M \<Longrightarrow> clean_sents tagger sentences M L = []"
  by (auto simp: clean_sents_eq filter_empty_conv)

text \<open>C6 at the bounds \<open>M = 3\<close>, \<open>L = 2\<close>.\<close>

theorem clean_sents_malformed_bounds_witness:
  "(2::int) < 3 \<and> clean_sents tag_nn [[''the'', ''cat'', ''sat'']] 3 2 = []"
  using clean_sents_malformed_bounds[of 2 3 tag_nn "[[''the'', ''cat'', ''sat'']]"] by simp

text \<open>
  C6 as stated fails: with \<open>M = 3 > L = 2\<close> the call returns normally, with an empty
  corpus (the second sentence even passes the pre-filter, whose upper bound is \<open>L + 1\<close>).
\<close>

theorem clean_sents_malformed_bounds_counterexample:
  "clean_sents tag_nn [[''the'', ''cat''], [''a'', ''dog'', ''barked'']] 3 2 = []"
  by code_simp

text \<open>\<open>index_of\<close> finds the first occurrence.\<close>

lemma index_of_first:
  "x \<in> set xs \<Longrightarrow>
     index_of xs x < length xs \<and> xs ! index_of xs x = x \<and> (\<forall>j<index_of xs x. xs ! j \<noteq> x)"
proof (induction xs)
  case Nil
  then show ?case by simp
next
  case (Cons y ys)
  show ?case
  proof (cases "y = x")
    case True
    then show ?thesis by simp
  next
    case False
    with Cons have "index_of ys x < length ys \<and> ys ! index_of ys x = x \<and> (\<forall>j<index_of ys x. ys ! j \<noteq> x)"
      by simp
    with False show ?thesis by (auto simp: nth_Cons' less_Suc_eq_0_disj)
  qed
qed

lemma index_of_unique:
  assumes "i < length xs" "xs ! i = x" "\<forall>j<i. xs ! j \<noteq> x"
  shows "index_of xs x = i"
proof -
  from assms(1,2) have "x \<in> set xs" by auto
  from index_of_first[OF this] assms show ?thesis
    by (metis linorder_neqE_nat)
qed

text \<open>
  C3, as the code has it. A sentence is skipped by the chapter rule exactly when some
  token is \<open>CHAPTER\<close>, or the first token equal to \<open>chapter\<close> up to case is directly
  followed by a token that is all digits or that the Roman-numeral classifier accepts; the
  classifier is applied to the following token whatever its length, so a single letter
  such as \<open>I\<close>, \<open>V\<close> or \<open>X\<close> counts. A skipped sentence contributes nothing to the
  output; a sentence that is not skipped goes on to the normaliser and the length filters.
\<close>

theorem chapter_heading_iff:
  "(chapter_heading sent \<longleftrightarrow>
      ''CHAPTER'' \<in> set sent
      \<or> (\<exists>i. Suc i < length sent \<and> lower (sent ! i) = ''chapter''
             \<and> (\<forall>j<i. lower (sent ! j) \<noteq> ''chapter'')
             \<and> (isdigit (sent ! Suc i) \<or> is_roman (sent ! Suc i))))
   \<and> (chapter_heading sent \<longrightarrow> clean_sents tagger [sent] M L = [])
   \<and> (\<not> chapter_heading sent \<longrightarrow>
        clean_sents tagger [sent] M L =
          (if M \<le> int (length sent) \<and> int (length sent) \<le> L + 1
              \<and> M \<le> int (length (clean_tokens (pos_tag tagger sent) []))
              \<and> int (length (clean_tokens (pos_tag tagger sent) [])) \<le> L
           then [clean_tokens (pos_tag tagger sent) []] else []))"
proof (intro conjI)
  let ?lowered = "map lower sent"
  let ?rhs = "\<exists>i. Suc i < length sent \<and> lower (sent ! i) = ''chapter''
             \<and> (\<forall>j<i. lower (sent ! j) \<noteq> ''chapter'')
             \<and> (isdigit (sent ! Suc i) \<or> is_roman (sent ! Suc i))"
  have "chapter_heading sent \<longleftrightarrow> ''CHAPTER'' \<in> set sent \<or> ?rhs" if "''CHAPTER'' \<in> set sent"
    using that by (auto simp: chapter_heading_def list_ex_iff)
  moreover have "chapter_heading sent \<longleftrightarrow> ''CHAPTER'' \<in> set sent \<or> ?rhs" if no: "''CHAPTER'' \<notin> set sent"
  proof (cases "''chapter'' \<in> set ?lowered")
    case False
    then have "\<not> chapter_heading sent" using no
      by (auto simp: chapter_heading_def list_ex_iff)
    moreover have "\<not> ?rhs"
    proof
      assume ?rhs
      then obtain i where "Suc i < length sent" "lower (sent ! i) = ''chapter''" by blast
      then have "i < length sent" "lower (sent ! i) = ''chapter''" by simp_all
      then have "''chapter'' \<in> set ?lowered"
        by (metis length_map nth_map nth_mem)
      with False show False by simp
    qed
    ultimately show ?thesis using no by simp
  next
    case True
    let ?i = "index_of ?lowered ''chapter''"
    from index_of_first[OF True]
    have i: "?i < length sent" "lower (sent ! ?i) = ''chapter''" "\<forall>j<?i. lower (sent ! j) \<noteq> ''chapter''"
      by auto
    have ch: "chapter_heading sent \<longleftrightarrow>
        Suc ?i < length sent \<and> (isdigit (sent ! Suc ?i) \<or> is_roman (sent ! Suc ?i))"
      using no True by (auto simp: chapter_heading_def list_ex_iff Let_def)
    have "?rhs \<longleftrightarrow> Suc ?i < length sent \<and> (isdigit (sent ! Suc ?i) \<or> is_roman (sent ! Suc ?i))"
    proof
      assume ?rhs
      then obtain k where k: "Suc k < length sent" "lower (sent ! k) = ''chapter''"
          "\<forall>j<k. lower (sent ! j) \<noteq> ''chapter''"
          "isdigit (sent ! Suc k) \<or> is_roman (sent ! Suc k)"
        by blast
      have "index_of ?lowered ''chapter'' = k"
        by (rule index_of_unique) (use k in auto)
      with k show "Suc ?i < length sent \<and> (isdigit (sent ! Suc ?i) \<or> is_roman (sent ! Suc ?i))"
        by simp
    next
      assume "Suc ?i < length sent \<and> (isdigit (sent ! Suc ?i) \<or> is_roman (sent ! Suc ?i))"
      with i show ?rhs by blast
    qed
    with ch no show ?thesis by simp
  qed
  ultimately show "chapter_heading sent \<longleftrightarrow> ''CHAPTER'' \<in> set sent \<or> ?rhs" by blast
next
  show "chapter_heading sent \<longrightarrow> clean_sents tagger [sent] M L = []"
    by (simp add: clean_sents_eq filtered_def)
next
  show "\<not> chapter_heading sent \<longrightarrow>
        clean_sents tagger [sent] M L =
          (if M \<le> int (length sent) \<and> int (length sent) \<le> L + 1
              \<and> M \<le> int (length (clean_tokens (pos_tag tagger sent) []))
              \<and> int (length (clean_tokens (pos_tag tagger sent) [])) \<le> L
           then [clean_tokens (pos_tag tagger sent) []] else [])"
    by (simp add: clean_sents_eq filtered_def)
qed

text \<open>C3 at the heading of the specification's scenario.\<close>

theorem chapter_heading_iff_witness:
  "chapter_heading [''chapter'', ''IV'', ''is'', ''long'', ''enough'']
   \<and> clean_sents tag_nn [[''chapter'', ''IV'', ''is'', ''long'', ''enough'']] 1 5 = []"
proof -
  let ?S = "[''chapter'', ''IV'', ''is'', ''long'', ''enough'']"
  have "lower (?S ! 0) = ''chapter''" "is_roman (?S ! Suc 0)" by code_simp+
  then have "\<exists>i. Suc i < length ?S \<and> lower (?S ! i) = ''chapter''
             \<and> (\<forall>j<i. lower (?S ! j) \<noteq> ''chapter'')
             \<and> (isdigit (?S ! Suc i) \<or> is_roman (?S ! Suc i))"
    by (intro exI[of _ 0]) simp
  with chapter_heading_iff[of ?S tag_nn 1 5] show ?thesis by blast
qed

text \<open>
  C3 as stated fails on a heading with a one-letter numeral: the code skips the sentence,
  the rule of the claim (which asks for a numeral of more than one character) would keep it.
\<close>

theorem chapter_rule_single_letter_counterexample:
  "chapter_heading [''Chapter'', ''I'', ''begins'', ''here'']
   \<and> \<not> chapter_rule_as_specified [''Chapter'', ''I'', ''begins'', ''here'']"
  by code_simp

text \<open>
  Only the first token equal to \<open>chapter\<close> up to case is looked at: a later one that is
  followed by a number does not make the sentence a heading.
\<close>

lemma chapter_heading_first_only_example:
  "\<not> chapter_heading [''chapter'', ''and'', ''Chapter'', ''12'']"
  by code_simp

section \<open>Cleaning a cleaned corpus again\<close>

text \<open>Re-cleaning: when the loop over the tagged tokens returns the sentence it was given.\<close>

lemma set_map_filter: "set (List.map_filter f xs) = {y. \<exists>x\<in>set xs. f x = Some y}"
  by (induction xs) (auto split: option.splits)

lemma clean_tokens_mem:
  "t \<in> set (clean_tokens ps []) \<Longrightarrow> \<exists>p\<in>set ps. clean_word p = Some t"
  by (simp add: clean_tokens_eq set_map_filter)

lemma map_filter_all_Some:
  "\<forall>x\<in>set xs. f (g x) = Some (h x) \<Longrightarrow> List.map_filter f (map g xs) = map h xs"
  by (induction xs) simp_all

lemma clean_tokens_fixed:
  assumes "\<forall>i<length s. clean_word (s ! i, tagger s i) = Some (s ! i)"
  shows "clean_tokens (pos_tag tagger s) [] = s"
proof -
  have "List.map_filter clean_word (pos_tag tagger s) = map (\<lambda>i. s ! i) [0..<length s]"
    unfolding pos_tag_def
    by (rule map_filter_all_Some) (use assms in simp)
  then show ?thesis by (simp add: clean_tokens_eq map_nth)
qed

text \<open>What the cleaner returns: sentences within the bounds, every token with a letter or digit.\<close>

lemma clean_sents_output:
  assumes "s \<in> set (clean_sents tagger sentences M L)"
  shows "M \<le> int (length s)" "int (length s) \<le> L" "\<forall>t\<in>set s. has_alnum t"
proof -
  from assms show "M \<le> int (length s)" "int (length s) \<le> L"
    by (simp_all add: clean_sents_eq)
  from assms obtain raw where "s = clean_tokens (pos_tag tagger raw) []"
    by (auto simp: clean_sents_eq)
  then show "\<forall>t\<in>set s. has_alnum t"
    using clean_tokens_mem clean_word_has_alnum by blast
qed

text \<open>
  C7, as the code has it. Cleaning the cleaner's output again with the same bounds returns
  it unchanged provided that, in that output, no sentence is a chapter heading in the sense
  of the chapter rule, no token is all digits or a Roman numeral of more than one
  character, and every token that the tagger does not mark as a proper noun on the second
  pass is in normal form (as every token is that was not kept as a proper noun on the
  first pass, by \<open>clean_word_normal_form\<close>).
\<close>

theorem clean_sents_idempotent_if:
  assumes chap: "\<forall>s\<in>set (clean_sents tagger sentences M L). \<not> chapter_heading s"
    and tok: "\<forall>s\<in>set (clean_sents tagger sentences M L). \<forall>i<length s.
        \<not> isdigit (s ! i) \<and> \<not> (1 < length (s ! i) \<and> is_roman (s ! i))
        \<and> (tagger s i \<noteq> ''NNP'' \<longrightarrow> normal_form (s ! i))"
  shows "clean_sents tagger (clean_sents tagger sentences M L) M L
       = clean_sents tagger sentences M L"
proof -
  let ?out = "clean_sents tagger sentences M L"
  have fixed: "clean_tokens (pos_tag tagger s) [] = s" if s: "s \<in> set ?out" for s
  proof (rule clean_tokens_fixed, intro allI impI)
    fix i assume i: "i < length s"
    with clean_sents_output(3)[OF s] have "has_alnum (s ! i)" by simp
    moreover from tok s i have "\<not> isdigit (s ! i)" "\<not> (1 < length (s ! i) \<and> is_roman (s ! i))"
        "tagger s i = ''NNP'' \<or> normal_form (s ! i)"
      by blast+
    ultimately show "clean_word (s ! i, tagger s i) = Some (s ! i)"
      by (rule clean_word_fixed)
  qed
  have 1: "filtered ?out M L = ?out"
    unfolding filtered_def
    by (rule filter_True) (use clean_sents_output(1,2) in force)
  have 2: "filter (\<lambda>s. \<not> chapter_heading s) ?out = ?out"
    by (rule filter_True) (use chap in blast)
  have 3: "map (\<lambda>s. clean_tokens (pos_tag tagger s) []) ?out = ?out"
    by (rule map_idI) (rule fixed)
  have 4: "filter (\<lambda>c. M \<le> int (length c) \<and> int (length c) \<le> L) ?out = ?out"
    by (rule filter_True) (use clean_sents_output(1,2) in blast)
  show ?thesis
    by (subst clean_sents_eq[of tagger ?out]) (simp only: 1 2 3 4)
qed

text \<open>C7 at a corpus whose output satisfies the three conditions.\<close>

theorem clean_sents_idempotent_if_witness:
  "clean_sents tag_nn [[''The'', ''cat'', ''sat'', ''.''], [''Oh'', ''!'']] 2 3 = [[''the'', ''cat'', ''sat'']]
   \<and> clean_sents tag_nn [[''the'', ''cat'', ''sat'']] 2 3 = [[''the'', ''cat'', ''sat'']]"
proof -
  let ?S = "[[''The'', ''cat'', ''sat'', ''.''], [''Oh'', ''!'']]"
  have e: "clean_sents tag_nn ?S 2 3 = [[''the'', ''cat'', ''sat'']]"
    by code_simp
  have c: "\<not> chapter_heading [''the'', ''cat'', ''sat'']" by code_simp
  have q: "\<not> isdigit ''the'' \<and> \<not> (1 < length ''the'' \<and> is_roman ''the'') \<and> normal_form ''the''"
    "\<not> isdigit ''cat'' \<and> \<not> (1 < length ''cat'' \<and> is_roman ''cat'') \<and> normal_form ''cat''"
    "\<not> isdigit ''sat'' \<and> \<not> (1 < length ''sat'' \<and> is_roman ''sat'') \<and> normal_form ''sat''"
    by code_simp+
  have h1: "\<forall>s\<in>set (clean_sents tag_nn ?S 2 3). \<not> chapter_heading s"
    unfolding e using c by simp
  have h2: "\<forall>s\<in>set (clean_sents tag_nn ?S 2 3). \<forall>i<length s.
        \<not> isdigit (s ! i) \<and> \<not> (1 < length (s ! i) \<and> is_roman (s ! i))
        \<and> (tag_nn s i \<noteq> ''NNP'' \<longrightarrow> normal_form (s ! i))"
    unfolding e using q by (simp add: All_less_Suc)
  from clean_sents_idempotent_if[OF h1 h2] e show ?thesis by simp
qed

text \<open>
  C7 as stated fails: the first pass drops the comma of \<open>In this chapter , I will show\<close>,
  which leaves \<open>chapter\<close> directly followed by \<open>i\<close>, and the second pass discards the
  sentence as a chapter heading.
\<close>

theorem clean_sents_idempotent_counterexample:
  "clean_sents tag_nn
     (clean_sents tag_nn [[''In'', ''this'', ''chapter'', '','', ''I'', ''will'', ''show'']] 0 10) 0 10
   \<noteq> clean_sents tag_nn [[''In'', ''this'', ''chapter'', '','', ''I'', ''will'', ''show'']] 0 10"
  by code_simp

text \<open>
  A second way in which re-cleaning changes a corpus: stripping the underscores of
  \<open>_12_\<close> leaves a token of digits, which the second pass drops.
\<close>

lemma clean_sents_idempotent_example_digits:
  "clean_sents tag_nn [[''see'', ''_12_'', ''cats'']] 0 10 = [[''see'', ''12'', ''cats'']]
   \<and> clean_sents tag_nn [[''see'', ''12'', ''cats'']] 0 10 = [[''see'', ''cats'']]"
  by code_simp

section \<open>The entropy formula over the reals\<close>

text \<open>
  C9 is about the floating-point values that \<open>position_dimensionality\<close> returns, which
  are outside this model. Over the reals the formula behaves as follows. At a position
  where every sentence carries the same token the marginal vector is a unit vector, and
  the smoothing constant makes the entropy negative: it is \<open>- log 2 1.00001\<close>.
\<close>

lemma entropy_exact_one_hot:
  "entropy_exact (replicate m 0 @ [1] @ replicate n 0) = - log 2 (1 + 1 / 100000)"
  by (simp add: entropy_exact_def sum_list_replicate)

lemma entropy_exact_one_hot_negative:
  "entropy_exact (replicate m 0 @ [1] @ replicate n 0) < 0"
  unfolding entropy_exact_one_hot by simp

text \<open>For a probability vector that value is the lower bound.\<close>

lemma entropy_exact_lower:
  assumes "\<forall>x\<in>set p. 0 \<le> x \<and> x \<le> 1" "sum_list p = 1"
  shows "- log 2 (1 + 1 / 100000) \<le> entropy_exact p"
proof -
  have "(\<Sum>x\<leftarrow>p. x * log 2 (x + 1 / 100000)) \<le> (\<Sum>x\<leftarrow>p. x * log 2 (1 + 1 / 100000))"
  proof (rule sum_list_mono)
    fix x assume "x \<in> set p"
    with assms(1) have x: "0 \<le> x" "x \<le> 1" by auto
    then have "log 2 (x + 1 / 100000) \<le> log 2 (1 + 1 / 100000)" by simp
    with x(1) show "x * log 2 (x + 1 / 100000) \<le> x * log 2 (1 + 1 / 100000)"
      by (rule mult_left_mono[rotated])
  qed
  also have "\<dots> = sum_list p * log 2 (1 + 1 / 100000)"
    by (simp add: sum_list_mult_const)
  finally show ?thesis using assms(2) by (simp add: entropy_exact_def)
qed

text \<open>
  The upper bound \<open>log 2 V\<close> of the unsmoothed entropy still holds; the proof uses
  \<open>ln y \<le> y - 1\<close> at \<open>y = 1 / (V * (x + \<epsilon>))\<close> for every entry \<open>x\<close>.
\<close>

lemma entropy_term_upper:
  fixes x v :: real
  assumes "0 \<le> x" "0 < v"
  shows "- (x * ln (x + 1 / 100000)) \<le> 1 / v - x + x * ln v"
proof -
  let ?e = "1 / 100000 :: real"
  have pos: "0 < x + ?e" using assms(1) by simp
  let ?y = "1 / (v * (x + ?e))"
  have y: "0 < ?y" using pos assms(2) by simp
  have "ln ?y \<le> ?y - 1" using y by (rule ln_le_minus_one)
  moreover have "ln ?y = - ln v - ln (x + ?e)"
    using pos assms(2) by (simp add: ln_div ln_mult)
  ultimately have "- ln (x + ?e) \<le> ?y - 1 + ln v" by simp
  with assms(1) have "x * (- ln (x + ?e)) \<le> x * (?y - 1 + ln v)"
    by (rule mult_left_mono[rotated])
  also have "\<dots> = x / (x + ?e) * (1 / v) - x + x * ln v"
    by (simp add: algebra_simps)
  also have "\<dots> \<le> 1 * (1 / v) - x + x * ln v"
  proof -
    have "x / (x + ?e) \<le> 1" using pos assms(1) by simp
    moreover have "0 \<le> 1 / v" using assms(2) by simp
    ultimately have "x / (x + ?e) * (1 / v) \<le> 1 * (1 / v)" by (rule mult_right_mono)
    then show ?thesis by simp
  qed
  finally show ?thesis by simp
qed

lemma sum_list_neg_div:
  fixes c :: real
  shows "(\<Sum>x\<leftarrow>p. - (x * ln (x + e))) / c = - (\<Sum>x\<leftarrow>p. x * (ln (x + e) / c))"
proof (induction p)
  case Nil
  show ?case by simp
next
  case (Cons a p)
  have "(\<Sum>x\<leftarrow>a # p. - (x * ln (x + e))) / c
      = - (a * ln (a + e)) / c + (\<Sum>x\<leftarrow>p. - (x * ln (x + e))) / c"
    by (simp add: diff_divide_distrib)
  also have "\<dots> = - (a * (ln (a + e) / c)) - (\<Sum>x\<leftarrow>p. x * (ln (x + e) / c))"
    unfolding Cons.IH by simp
  finally show ?case by simp
qed

lemma entropy_exact_upper:
  assumes "\<forall>x\<in>set p. 0 \<le> x" "sum_list p = 1"
  shows "entropy_exact p \<le> log 2 (real (length p))"
proof -
  from assms(2) have ne: "p \<noteq> []" by auto
  then have v: "0 < real (length p)" by simp
  let ?v = "real (length p)"
  have "(\<Sum>x\<leftarrow>p. - (x * ln (x + 1 / 100000))) \<le> (\<Sum>x\<leftarrow>p. 1 / ?v - x + x * ln ?v)"
    by (rule sum_list_mono) (use assms(1) v in \<open>simp add: entropy_term_upper\<close>)
  also have "\<dots> = ?v * (1 / ?v) - sum_list p + sum_list p * ln ?v"
    by (simp add: sum_list_addf sum_list_subtractf sum_list_mult_const sum_list_triv)
  also have "\<dots> = ln ?v" using v assms(2) by simp
  finally have "(\<Sum>x\<leftarrow>p. - (x * ln (x + 1 / 100000))) \<le> ln ?v" .
  then have "(\<Sum>x\<leftarrow>p. - (x * ln (x + 1 / 100000))) / ln 2 \<le> ln ?v / ln 2"
    by (simp add: divide_right_mono)
  moreover have "entropy_exact p = (\<Sum>x\<leftarrow>p. - (x * ln (x + 1 / 100000))) / ln 2"
    unfolding entropy_exact_def log_def by (rule sum_list_neg_div[symmetric])
  ultimately show ?thesis by (simp add: log_def)
qed

lemma dimensionality_exact_upper:
  assumes "\<forall>x\<in>set p. 0 \<le> x" "sum_list p = 1"
  shows "dimensionality_exact p \<le> real (length p)"
proof -
  from assms(2) have "p \<noteq> []" by auto
  then have v: "0 < real (length p)" by simp
  have "2 powr entropy_exact p \<le> 2 powr log 2 (real (length p))"
    using entropy_exact_upper[OF assms] by simp
  with v show ?thesis by (simp add: dimensionality_exact_def)
qed

end
